theory Spec2Isabelle
  imports Complex_Main "HOL-Library.Sublist" "HOL-Library.Char_ord" "HOL-Library.List_Lexorder"
begin

section \<open>The fireplace relay controller (fireplace.py)\<close>

text \<open>
  A shallow embedding of \<^verbatim>\<open>src/fireplace.py\<close>. Python floats are modelled as exact
  reals, Python's unbounded integers as \<open>int\<close>, \<open>str\<close> as \<open>string\<close> restricted to
  ASCII, dictionaries as association lists in declaration order, and exceptions as the
  left summand of a result.
\<close>

subsection \<open>Python built-ins used by the program\<close>

text \<open>The ASCII characters for which \<^verbatim>\<open>str.isspace\<close> holds.\<close>

definition is_space :: "char \<Rightarrow> bool" where
  "is_space c = (let n = (of_char c :: nat) in (9 \<le> n \<and> n \<le> 13) \<or> (28 \<le> n \<and> n \<le> 32))"

text \<open>\<^verbatim>\<open>str.strip()\<close>: leading and trailing whitespace removed.\<close>

definition strip :: "string \<Rightarrow> string" where
  "strip s = rev (dropWhile is_space (rev (dropWhile is_space s)))"

definition is_digit :: "char \<Rightarrow> bool" where
  "is_digit c = (let n = (of_char c :: nat) in 48 \<le> n \<and> n \<le> 57)"

definition digit_val :: "char \<Rightarrow> nat" where
  "digit_val c = (of_char c :: nat) - 48"

text \<open>
  The digits of a decimal literal after its first digit: digits, with a single
  underscore allowed between two digits.
\<close>

fun py_digits :: "nat \<Rightarrow> string \<Rightarrow> nat option" where
  "py_digits acc [] = Some acc"
| "py_digits acc [c] = (if is_digit c then Some (10 * acc + digit_val c) else None)"
| "py_digits acc (c # d # cs) =
     (if is_digit c then py_digits (10 * acc + digit_val c) (d # cs)
      else if c = CHR ''_'' \<and> is_digit d then py_digits acc (d # cs)
      else None)"

definition py_nat :: "string \<Rightarrow> nat option" where
  "py_nat s = (case s of [] \<Rightarrow> None
     | c # cs \<Rightarrow> if is_digit c then py_digits (digit_val c) cs else None)"

text \<open>
  \<^verbatim>\<open>int(s)\<close> on a string, base 10: surrounding whitespace is ignored, one sign is
  allowed, then a decimal literal. \<open>None\<close> stands for \<^verbatim>\<open>ValueError\<close>.
\<close>

definition py_int :: "string \<Rightarrow> int option" where
  "py_int s = (case strip s of
       [] \<Rightarrow> None
     | c # cs \<Rightarrow>
         if c = CHR ''-'' then map_option (\<lambda>n. - int n) (py_nat cs)
         else if c = CHR ''+'' then map_option int (py_nat cs)
         else map_option int (py_nat (c # cs)))"

text \<open>\<^verbatim>\<open>sep.join(xs)\<close>.\<close>

fun join :: "string \<Rightarrow> string list \<Rightarrow> string" where
  "join sep [] = []"
| "join sep [x] = x"
| "join sep (x # y # xs) = x @ sep @ join sep (y # xs)"

text \<open>\<^verbatim>\<open>s.split(",")\<close>, with the field being read kept in the accumulator.\<close>

fun split_acc :: "char \<Rightarrow> string \<Rightarrow> string \<Rightarrow> string list" where
  "split_acc sep acc [] = [rev acc]"
| "split_acc sep acc (c # cs) =
     (if c = sep then rev acc # split_acc sep [] cs else split_acc sep (c # acc) cs)"

definition split :: "char \<Rightarrow> string \<Rightarrow> string list" where
  "split sep s = split_acc sep [] s"

subsection \<open>Relay tables\<close>

definition KNOWN_RELAYS :: "(string \<times> int) list" where
  "KNOWN_RELAYS =
    [(''low_flame'', 4), (''high_flame'', 22), (''aux_1'', 6), (''aux_2'', 26)]"

definition RELAY_ALIASES :: "(string \<times> string) list" where
  "RELAY_ALIASES =
    [(''main_burner'', ''low_flame''), (''main'', ''low_flame''),
     (''relay_gpio4'', ''low_flame''), (''relay_gpio22'', ''high_flame''),
     (''relay_gpio6'', ''aux_1''), (''relay_gpio26'', ''aux_2''),
     (''gpio4'', ''low_flame''), (''gpio22'', ''high_flame''),
     (''gpio6'', ''aux_1''), (''gpio26'', ''aux_2''),
     (''r4'', ''low_flame''), (''r22'', ''high_flame''),
     (''r6'', ''aux_1''), (''r26'', ''aux_2'')]"

subsection \<open>Exceptions\<close>

datatype exn =
    KeyboardInterrupt
  | SystemExit string
  | RuntimeError string
  | ArgumentTypeError string
  | AssertionError
  | DeviceError

subsection \<open>Channel resolution\<close>

text \<open>A relay reference is a string or an integer already parsed by argparse.\<close>

datatype relay_ref = RefInt int | RefStr string

definition unknown_relay_message :: "string \<Rightarrow> string" where
  "unknown_relay_message s =
     ''Unknown relay '' @ [CHR 0x27] @ s @ [CHR 0x27] @ ''. Use one of: ''
       @ join '', '' (sort (map fst KNOWN_RELAYS)) @ '' (or a BCM pin number)''"

definition resolve_relay_ref :: "relay_ref option \<Rightarrow> exn + int option" where
  "resolve_relay_ref v =
    (case v of
       None \<Rightarrow> Inr None
     | Some (RefInt n) \<Rightarrow> Inr (Some n)
     | Some (RefStr raw) \<Rightarrow>
        (let s = strip raw in
         if s = [] then Inr None
         else
          (let s1 = (case map_of RELAY_ALIASES s of Some c \<Rightarrow> c | None \<Rightarrow> s) in
           case map_of KNOWN_RELAYS s1 of
             Some p \<Rightarrow> Inr (Some p)
           | None \<Rightarrow>
              (case py_int s1 of
                 Some n \<Rightarrow> Inr (Some n)
               | None \<Rightarrow> Inl (SystemExit (unknown_relay_message s1))))))"

text \<open>
  Python's \<^verbatim>\<open>a or b\<close> on two resolved references: \<open>None\<close> and \<open>0\<close> are falsy, and
  \<^verbatim>\<open>b\<close> is evaluated only when \<^verbatim>\<open>a\<close> is falsy.
\<close>

definition truthy :: "int option \<Rightarrow> bool" where
  "truthy v = (case v of None \<Rightarrow> False | Some n \<Rightarrow> n \<noteq> 0)"

definition select_pin :: "string option \<Rightarrow> int option \<Rightarrow> exn + int option" where
  "select_pin preferred legacy =
    (case resolve_relay_ref (map_option RefStr preferred) of
       Inl e \<Rightarrow> Inl e
     | Inr a \<Rightarrow> if truthy a then Inr a else resolve_relay_ref (map_option RefInt legacy))"

subsection \<open>The environment and the observable log\<close>

text \<open>
  The program acts on relay handles, the clock, standard output and \<^verbatim>\<open>/proc/uptime\<close>.
  The world records what it did and what the environment will do to it:
  \<^item> \<open>clock\<close> is \<^verbatim>\<open>time.monotonic()\<close>; only \<^verbatim>\<open>time.sleep\<close> advances it;
  \<^item> \<open>sigint\<close> is the time at which SIGINT arrives, if it does; the handler installed
    by the entry point raises \<^verbatim>\<open>KeyboardInterrupt\<close> inside the running sleep;
  \<^item> \<open>uptime\<close> is the value read from \<^verbatim>\<open>/proc/uptime\<close>, \<open>None\<close> when it cannot be
    read, and \<open>uptime_reads\<close> counts the reads;
  \<^item> \<open>gpiozero\<close>, \<open>device_fails\<close> and \<open>write_fails\<close> say whether the GPIO library is
    importable, whether binding a pin raises, and whether the k-th hardware write
    raises; \<open>writes\<close> counts the hardware writes;
  \<^item> \<open>trace\<close> lists the calls of \<^verbatim>\<open>open()\<close> and \<^verbatim>\<open>close()\<close> on relay handles in order,
    each with the clock at the call; \<open>stdout\<close> lists the printed lines.
\<close>

datatype relay_op = Open int | Close int

text \<open>Printed lines, each carrying the values interpolated into it.\<close>

datatype out_line =
    DryRunOpen int
  | DryRunClose int
  | CannotReadUptime real
  | BootGuardWaiting real
  | HoldingMsg
  | MaintainedMsg
  | ProbingMsg
  | ProbeOpenMsg int real
  | ProbeCloseMsg int real
  | KnownRelaysJson
  | KnownRelaysText
  | Interrupted

record world =
  clock :: real
  sigint :: "real option"
  uptime :: "real option"
  uptime_reads :: nat
  gpiozero :: bool
  device_fails :: "int \<Rightarrow> bool"
  write_fails :: "nat \<Rightarrow> bool"
  writes :: nat
  trace :: "(real \<times> relay_op) list"
  stdout :: "out_line list"

text \<open>
  A computation returns a value or raises, and leaves a world; \<open>None\<close> is a computation
  that never returns.
\<close>

type_synonym 'a prog = "world \<Rightarrow> ((exn + 'a) \<times> world) option"

definition ret :: "'a \<Rightarrow> 'a prog" where
  "ret x w = Some (Inr x, w)"

definition raise :: "exn \<Rightarrow> 'a prog" where
  "raise e w = Some (Inl e, w)"

definition and_then :: "'a prog \<Rightarrow> ('a \<Rightarrow> 'b prog) \<Rightarrow> 'b prog" where
  "and_then m f w =
    (case m w of
       None \<Rightarrow> None
     | Some (Inl e, w') \<Rightarrow> Some (Inl e, w')
     | Some (Inr x, w') \<Rightarrow> f x w')"

text \<open>A block of statements, run in order until one raises.\<close>

fun steps :: "unit prog list \<Rightarrow> unit prog" where
  "steps [] = ret ()"
| "steps (m # ms) = and_then m (\<lambda>_. steps ms)"

text \<open>\<^verbatim>\<open>try: ... except KeyboardInterrupt: pass\<close>\<close>

definition catch_keyboard_interrupt :: "unit prog \<Rightarrow> unit prog" where
  "catch_keyboard_interrupt m w =
    (case m w of
       Some (Inl KeyboardInterrupt, w') \<Rightarrow> Some (Inr (), w')
     | r \<Rightarrow> r)"

definition print :: "out_line \<Rightarrow> unit prog" where
  "print l w = Some (Inr (), w\<lparr>stdout := stdout w @ [l]\<rparr>)"

subsection \<open>Time\<close>

text \<open>
  \<^verbatim>\<open>time.sleep(d)\<close>: the clock advances by \<open>d\<close>, unless SIGINT arrives before the sleep
  is over; then the handler raises \<^verbatim>\<open>KeyboardInterrupt\<close> at that time.
\<close>

definition time_sleep :: "real \<Rightarrow> world \<Rightarrow> (exn + unit) \<times> world" where
  "time_sleep d w =
    (case sigint w of
       Some t \<Rightarrow>
         if t < clock w + d
         then (Inl KeyboardInterrupt, w\<lparr>clock := max (clock w) t, sigint := None\<rparr>)
         else (Inr (), w\<lparr>clock := clock w + d\<rparr>)
     | None \<Rightarrow> (Inr (), w\<lparr>clock := clock w + d\<rparr>))"

text \<open>The loop of \<^verbatim>\<open>_sleep_with_sigint\<close>, from the deadline computed at entry.\<close>

function sleep_loop :: "real \<Rightarrow> world \<Rightarrow> (exn + unit) \<times> world" where
  "sleep_loop deadline w =
    (if deadline - clock w \<le> 0 then (Inr (), w)
     else
      (case time_sleep (min 0.2 (deadline - clock w)) w of
         (Inl e, w') \<Rightarrow> (Inl e, w')
       | (Inr u, w') \<Rightarrow> sleep_loop deadline w'))"
  by pat_completeness auto
termination
proof (relation "measure (\<lambda>(deadline, w). nat \<lceil>(deadline - clock w) * 5\<rceil>)")
  show "wf (measure (\<lambda>(deadline, w). nat \<lceil>(deadline - clock w) * 5\<rceil>))"
    by simp
next
  fix deadline :: real and w :: world and x :: "exn + unit" and w' :: world and u :: unit
  assume pos: "\<not> deadline - clock w \<le> 0"
    and sl: "(x, w') = time_sleep (min 0.2 (deadline - clock w)) w"
    and ok: "x = Inr u"
  define r where "r = deadline - clock w"
  have r: "0 < r" using pos by (simp add: r_def)
  have "clock w' = clock w + min 0.2 r"
    using sl ok unfolding time_sleep_def r_def
    by (auto split: option.splits if_splits)
  then have rem: "deadline - clock w' = r - min 0.2 r"
    by (simp add: r_def)
  have "\<lceil>(r - min 0.2 r) * 5\<rceil> < \<lceil>r * 5\<rceil>"
  proof (cases "r \<le> 0.2")
    case True
    then have "(r - min 0.2 r) * 5 = 0" by (simp add: min_def)
    moreover have "0 < \<lceil>r * 5\<rceil>" using r by simp
    ultimately show ?thesis by simp
  next
    case False
    then have "(r - min 0.2 r) * 5 = r * 5 - 1" by (simp add: min_def)
    then show ?thesis by simp
  qed
  then have lt: "\<lceil>(deadline - clock w') * 5\<rceil> < \<lceil>r * 5\<rceil>"
    by (simp only: rem)
  have "0 < \<lceil>r * 5\<rceil>" using r by simp
  with lt have "nat \<lceil>(deadline - clock w') * 5\<rceil> < nat \<lceil>r * 5\<rceil>"
    by linarith
  then show "((deadline, w'), (deadline, w))
      \<in> measure (\<lambda>(deadline, w). nat \<lceil>(deadline - clock w) * 5\<rceil>)"
    by (simp only: in_measure case_prod_conv r_def)
qed

declare sleep_loop.simps [simp del]

definition sleep_with_sigint :: "real \<Rightarrow> unit prog" where
  "sleep_with_sigint seconds w = Some (sleep_loop (clock w + max 0 seconds) w)"

text \<open>\<^verbatim>\<open>while True: time.sleep(1)\<close>: left only by an exception.\<close>

partial_function (option) sleep_forever :: "world \<Rightarrow> ((exn + unit) \<times> world) option" where
  "sleep_forever w =
    (case time_sleep 1 w of
       (Inl e, w') \<Rightarrow> Some (Inl e, w')
     | (Inr u, w') \<Rightarrow> sleep_forever w')"

declare sleep_forever.simps [code]

text \<open>\<^verbatim>\<open>_read_uptime_seconds\<close>: every exception of the read becomes \<open>None\<close>.\<close>

definition read_uptime_seconds :: "real option prog" where
  "read_uptime_seconds w = Some (Inr (uptime w), w\<lparr>uptime_reads := Suc (uptime_reads w)\<rparr>)"

subsection \<open>Relay handles\<close>

record RelayConfig =
  pin :: int
  active_low :: bool

record Relay =
  cfg :: RelayConfig
  dry_run :: bool

text \<open>
  \<^verbatim>\<open>Relay.__init__\<close>: outside dry-run mode the GPIO library is imported and the pin
  bound; either may raise.
\<close>

definition Relay_init :: "RelayConfig \<Rightarrow> bool \<Rightarrow> Relay prog" where
  "Relay_init c d w =
    (if \<not> d then
       (if \<not> gpiozero w then
          raise (RuntimeError
            ''gpiozero is required on the Pi (sudo apt install python3-gpiozero), or use --dry-run'') w
        else if device_fails w (pin c) then raise DeviceError w
        else ret \<lparr>cfg = c, dry_run = d\<rparr> w)
     else ret \<lparr>cfg = c, dry_run = d\<rparr> w)"

text \<open>A write to the device (\<^verbatim>\<open>off()\<close> or \<^verbatim>\<open>on()\<close>); the environment may make it raise.\<close>

definition device_write :: "unit prog" where
  "device_write w =
    (if write_fails w (writes w) then Some (Inl DeviceError, w\<lparr>writes := Suc (writes w)\<rparr>)
     else Some (Inr (), w\<lparr>writes := Suc (writes w)\<rparr>))"

definition log_op :: "relay_op \<Rightarrow> unit prog" where
  "log_op x w = Some (Inr (), w\<lparr>trace := trace w @ [(clock w, x)]\<rparr>)"

definition relay_open :: "Relay \<Rightarrow> unit prog" where
  "relay_open r =
    and_then (log_op (Open (pin (cfg r))))
      (\<lambda>_. if dry_run r then print (DryRunOpen (pin (cfg r))) else device_write)"

definition relay_close :: "Relay \<Rightarrow> unit prog" where
  "relay_close r =
    and_then (log_op (Close (pin (cfg r))))
      (\<lambda>_. if dry_run r then print (DryRunClose (pin (cfg r))) else device_write)"

subsection \<open>Boot guard\<close>

definition guard_after_boot :: "real \<Rightarrow> bool \<Rightarrow> unit prog" where
  "guard_after_boot min_uptime_seconds d =
    (if min_uptime_seconds \<le> 0 then ret ()
     else
      and_then read_uptime_seconds
        (\<lambda>up. case up of
           None \<Rightarrow> if d then print (CannotReadUptime min_uptime_seconds) else ret ()
         | Some u \<Rightarrow>
            (let remaining = min_uptime_seconds - u in
             if remaining > 0
             then steps [print (BootGuardWaiting remaining), sleep_with_sigint remaining]
             else ret ())))"

subsection \<open>Patterns\<close>

definition cmd_pulse :: "Relay \<Rightarrow> int \<Rightarrow> unit prog" where
  "cmd_pulse relay pulse_ms =
    steps [relay_open relay,
           relay_close relay,
           sleep_with_sigint (real_of_int pulse_ms / 1000),
           relay_open relay]"

definition cmd_hold :: "Relay \<Rightarrow> real option \<Rightarrow> unit prog" where
  "cmd_hold relay hold_seconds =
    steps [relay_open relay,
           relay_close relay,
           (case hold_seconds of
              None \<Rightarrow> steps [print HoldingMsg, catch_keyboard_interrupt sleep_forever]
            | Some h \<Rightarrow> sleep_with_sigint h),
           relay_open relay]"

definition cmd_maintained :: "Relay \<Rightarrow> real option \<Rightarrow> unit prog" where
  "cmd_maintained relay hold_seconds =
    steps [relay_open relay,
           sleep_with_sigint 1.0,
           relay_close relay,
           sleep_with_sigint 0.250,
           relay_open relay,
           sleep_with_sigint 0.250,
           relay_close relay,
           (case hold_seconds of
              None \<Rightarrow> steps [print MaintainedMsg, catch_keyboard_interrupt sleep_forever]
            | Some h \<Rightarrow> sleep_with_sigint h),
           relay_open relay]"

text \<open>The body of the loop of \<^verbatim>\<open>cmd_probe\<close>, for one pin.\<close>

definition probe_pin ::
    "bool \<Rightarrow> int \<Rightarrow> real \<Rightarrow> real option \<Rightarrow> real \<Rightarrow> bool \<Rightarrow> int \<Rightarrow> unit prog" where
  "probe_pin al pulse_ms open_seconds close_seconds post_open_seconds d p =
    and_then (Relay_init \<lparr>pin = p, active_low = al\<rparr> d)
      (\<lambda>relay.
        let close_for = (case close_seconds of Some c \<Rightarrow> c | None \<Rightarrow> real_of_int pulse_ms / 1000) in
        steps [relay_open relay,
               (if open_seconds > 0
                then steps [print (ProbeOpenMsg p open_seconds), sleep_with_sigint open_seconds]
                else ret ()),
               relay_close relay,
               print (ProbeCloseMsg p close_for),
               sleep_with_sigint close_for,
               relay_open relay,
               (if post_open_seconds > 0
                then steps [print (ProbeOpenMsg p post_open_seconds),
                            sleep_with_sigint post_open_seconds]
                else ret ())])"

definition cmd_probe ::
    "int list \<Rightarrow> bool \<Rightarrow> int \<Rightarrow> real \<Rightarrow> real option \<Rightarrow> real \<Rightarrow> bool \<Rightarrow> unit prog" where
  "cmd_probe ps al pulse_ms open_seconds close_seconds post_open_seconds d =
    (if ps = [] then raise (SystemExit ''probe requires at least one pin'')
     else steps (print ProbingMsg
            # map (probe_pin al pulse_ms open_seconds close_seconds post_open_seconds d) ps))"

subsection \<open>The command line\<close>

definition parse_pin :: "string \<Rightarrow> exn + int" where
  "parse_pin v =
    (case py_int v of
       Some n \<Rightarrow> Inr n
     | None \<Rightarrow> Inl (ArgumentTypeError ''pin must be an integer GPIO (BCM numbering)''))"

text \<open>\<^verbatim>\<open>[_parse_pin(p) for p in pins]\<close>: the first pin that does not parse raises.\<close>

fun parse_pins :: "string list \<Rightarrow> exn + int list" where
  "parse_pins [] = Inr []"
| "parse_pins (v # vs) =
    (case parse_pin v of
       Inl e \<Rightarrow> Inl e
     | Inr n \<Rightarrow> (case parse_pins vs of Inl e \<Rightarrow> Inl e | Inr ns \<Rightarrow> Inr (n # ns)))"

datatype command = ListRelays | Ignite | On | Off | High | Low | PulseHigh | Probe

text \<open>
  The namespace that argparse returns. A field that the chosen subcommand does not
  define is not read by \<^verbatim>\<open>main\<close> under that subcommand.
\<close>

record args =
  cmd :: command
  json :: bool
  main_relay :: "string option"
  high_relay :: "string option"
  pin_main :: "int option"
  pin_high :: "int option"
  args_active_low :: bool
  boot_guard_seconds :: real
  args_dry_run :: bool
  pulse_ms :: int
  maintained :: bool
  hold_seconds :: "real option"
  pins :: string
  open_seconds :: real
  close_seconds :: "real option"
  post_open_seconds :: real

text \<open>The relay of a command that needs one: the selected pin must be present.\<close>

definition make_relay :: "bool \<Rightarrow> string \<Rightarrow> int option \<Rightarrow> args \<Rightarrow> Relay option prog" where
  "make_relay needed msg selected a =
    (if needed then
       (case selected of
          None \<Rightarrow> raise (SystemExit msg)
        | Some p \<Rightarrow>
            and_then (Relay_init \<lparr>pin = p, active_low = args_active_low a\<rparr> (args_dry_run a))
              (\<lambda>r. ret (Some r)))
     else ret None)"

definition open_if_present :: "Relay option \<Rightarrow> unit prog" where
  "open_if_present r = (case r of Some relay \<Rightarrow> relay_open relay | None \<Rightarrow> ret ())"

text \<open>The last part of \<^verbatim>\<open>main\<close>: the pattern of the command.\<close>

definition dispatch :: "args \<Rightarrow> Relay option \<Rightarrow> Relay option \<Rightarrow> int prog" where
  "dispatch a main_rly high_rly =
    (if cmd a = Ignite then
       (case main_rly of
          None \<Rightarrow> raise AssertionError
        | Some r \<Rightarrow>
            and_then (if maintained a then cmd_maintained r (hold_seconds a)
                      else cmd_pulse r (pulse_ms a))
              (\<lambda>_. ret 0))
     else if cmd a = On then
       (case main_rly of
          None \<Rightarrow> raise AssertionError
        | Some r \<Rightarrow> and_then (cmd_hold r (hold_seconds a)) (\<lambda>_. ret 0))
     else if cmd a = Off then
       (case main_rly of
          None \<Rightarrow> raise AssertionError
        | Some r \<Rightarrow> and_then (relay_open r) (\<lambda>_. ret 0))
     else if cmd a \<in> {High, Low, PulseHigh} then
       (case high_rly of
          None \<Rightarrow> raise AssertionError
        | Some r \<Rightarrow>
            if cmd a = High then and_then (cmd_hold r (hold_seconds a)) (\<lambda>_. ret 0)
            else if cmd a = Low then and_then (relay_open r) (\<lambda>_. ret 0)
            else and_then (cmd_pulse r (pulse_ms a)) (\<lambda>_. ret 0))
     else raise (SystemExit ''Unknown command''))"

definition main :: "args \<Rightarrow> int prog" where
  "main a =
    (if cmd a = ListRelays then
       and_then (print (if json a then KnownRelaysJson else KnownRelaysText)) (\<lambda>_. ret 0)
     else if cmd a = Probe then
       (case parse_pins (filter (\<lambda>p. p \<noteq> []) (map strip (split (CHR '','') (pins a)))) of
          Inl e \<Rightarrow> raise e
        | Inr ps \<Rightarrow>
            and_then
              (cmd_probe ps (args_active_low a) (pulse_ms a) (open_seconds a)
                 (close_seconds a) (post_open_seconds a) (args_dry_run a))
              (\<lambda>_. ret 0))
     else
       (case select_pin (main_relay a) (pin_main a) of
          Inl e \<Rightarrow> raise e
        | Inr main_pin \<Rightarrow>
           (case select_pin (high_relay a) (pin_high a) of
              Inl e \<Rightarrow> raise e
            | Inr high_pin \<Rightarrow>
               and_then
                 (make_relay (cmd a \<in> {Ignite, On, Off})
                    ''Set --main-relay (preferred) / --pin-main, or FIREPLACE_MAIN_RELAY / FIREPLACE_PIN_MAIN''
                    main_pin a)
                 (\<lambda>main_rly.
                   and_then
                     (make_relay (cmd a \<in> {High, Low, PulseHigh})
                        ''Set --high-relay (preferred) / --pin-high, or FIREPLACE_HIGH_RELAY / FIREPLACE_PIN_HIGH''
                        high_pin a)
                     (\<lambda>high_rly.
                       and_then (open_if_present main_rly)
                         (\<lambda>_. and_then (open_if_present high_rly)
                           (\<lambda>_. and_then
                                  (if cmd a \<in> {Ignite, On, Off}
                                   then guard_after_boot (boot_guard_seconds a) (args_dry_run a)
                                   else ret ())
                                  (\<lambda>_. dispatch a main_rly high_rly))))))))"

text \<open>
  The entry point: the exit status of the process. \<^verbatim>\<open>KeyboardInterrupt\<close> out of
  \<^verbatim>\<open>main\<close> prints a line and exits with 130; any other exception ends the process
  with status 1.
\<close>

definition run :: "args \<Rightarrow> world \<Rightarrow> (int \<times> world) option" where
  "run a w =
    (case main a w of
       None \<Rightarrow> None
     | Some (Inr status, w') \<Rightarrow> Some (status, w')
     | Some (Inl KeyboardInterrupt, w') \<Rightarrow> Some (130, w'\<lparr>stdout := stdout w' @ [Interrupted]\<rparr>)
     | Some (Inl e, w') \<Rightarrow> Some (1, w'))"

text \<open>A world in which nothing has happened yet and the hardware works.\<close>

definition world0 :: world where
  "world0 = \<lparr>clock = 0, sigint = None, uptime = Some 3600, uptime_reads = 0,
             gpiozero = True, device_fails = (\<lambda>_. False), write_fails = (\<lambda>_. False),
             writes = 0, trace = [], stdout = []\<rparr>"

text \<open>The relay operations of a trace, without the times.\<close>

definition ops :: "world \<Rightarrow> relay_op list" where
  "ops w = map snd (trace w)"

text \<open>
  The namespace of \<^verbatim>\<open>ignite --main-relay low_flame\<close> with the parser's defaults and no
  environment variable set; the fields of other subcommands hold their defaults.
\<close>

definition ignite_args :: args where
  "ignite_args =
    \<lparr>cmd = Ignite, json = False, main_relay = Some ''low_flame'', high_relay = None,
     pin_main = None, pin_high = None, args_active_low = False, boot_guard_seconds = 12,
     args_dry_run = False, pulse_ms = 250, maintained = False, hold_seconds = None,
     pins = ''4,22,6,26'', open_seconds = 0, close_seconds = None, post_open_seconds = 0.5\<rparr>"

text \<open>The live handle of the main relay on pin 4.\<close>

definition low_flame_relay :: Relay where
  "low_flame_relay = \<lparr>cfg = \<lparr>pin = 4, active_low = False\<rparr>, dry_run = False\<rparr>"

text \<open>What is seen of a finished process: exit status, final clock and relay operations.\<close>

definition observe :: "(int \<times> world) option \<Rightarrow> (int \<times> real \<times> (real \<times> relay_op) list) option" where
  "observe r = map_option (\<lambda>(status, w). (status, clock w, trace w)) r"

subsection \<open>Specification-side notions\<close>

text \<open>
  The probe sweep in the words of the specification: for each channel in the order
  given, open at the start of its cycle, close after the open wait, open again after
  the close wait, and the next channel starts after the post-open wait.
\<close>

fun sweep_cycles :: "real \<Rightarrow> real \<Rightarrow> real \<Rightarrow> real \<Rightarrow> int list \<Rightarrow> (real \<times> relay_op) list" where
  "sweep_cycles start open_wait close_wait post_wait [] = []"
| "sweep_cycles start open_wait close_wait post_wait (p # ps) =
     [(start, Open p), (start + open_wait, Close p), (start + open_wait + close_wait, Open p)]
       @ sweep_cycles (start + open_wait + close_wait + post_wait) open_wait close_wait post_wait ps"

text \<open>
  The pin of the relay that a command drives: \<^verbatim>\<open>main\<close> resolves both relay options
  before anything else, and then needs the main relay for \<^verbatim>\<open>ignite\<close>, \<^verbatim>\<open>on\<close> and
  \<^verbatim>\<open>off\<close> and the high-flame relay for \<^verbatim>\<open>high\<close>, \<^verbatim>\<open>low\<close> and \<^verbatim>\<open>pulse-high\<close>.
\<close>

definition relay_pin :: "args \<Rightarrow> int option" where
  "relay_pin a =
    (case select_pin (main_relay a) (pin_main a) of
       Inl e \<Rightarrow> None
     | Inr main_pin \<Rightarrow>
        (case select_pin (high_relay a) (pin_high a) of
           Inl e \<Rightarrow> None
         | Inr high_pin \<Rightarrow>
            if cmd a \<in> {Ignite, On, Off} then main_pin
            else if cmd a \<in> {High, Low, PulseHigh} then high_pin
            else None))"

text \<open>The handle that \<^verbatim>\<open>main\<close> builds on that pin.\<close>

definition command_relay :: "args \<Rightarrow> int \<Rightarrow> Relay" where
  "command_relay a p = \<lparr>cfg = \<lparr>pin = p, active_low = args_active_low a\<rparr>, dry_run = args_dry_run a\<rparr>"

text \<open>The pattern that \<^verbatim>\<open>main\<close> runs on that handle, after the fail-safe open and the guard.\<close>

definition pattern_of :: "args \<Rightarrow> Relay \<Rightarrow> unit prog" where
  "pattern_of a r =
    (if cmd a = Ignite then
       (if maintained a then cmd_maintained r (hold_seconds a) else cmd_pulse r (pulse_ms a))
     else if cmd a = On \<or> cmd a = High then cmd_hold r (hold_seconds a)
     else if cmd a = PulseHigh then cmd_pulse r (pulse_ms a)
     else relay_open r)"

text \<open>Dry-run mode, or a GPIO library that binds pin \<open>p\<close> and whose writes all succeed.\<close>

definition hardware_ok :: "args \<Rightarrow> world \<Rightarrow> int \<Rightarrow> bool" where
  "hardware_ok a w p \<longleftrightarrow>
     args_dry_run a \<or> (gpiozero w \<and> \<not> device_fails w p \<and> (\<forall>k. \<not> write_fails w k))"

text \<open>
  The time for which the boot guard holds a command back: nothing for a command other
  than \<^verbatim>\<open>ignite\<close>, \<^verbatim>\<open>on\<close> and \<^verbatim>\<open>off\<close>, for a minimum of zero or less and for an
  unreadable uptime; otherwise what the uptime lacks to the minimum.
\<close>

definition guard_delay :: "args \<Rightarrow> world \<Rightarrow> real" where
  "guard_delay a w =
    (if cmd a \<in> {Ignite, On, Off} \<and> 0 < boot_guard_seconds a
     then (case uptime w of None \<Rightarrow> 0 | Some u \<Rightarrow> max 0 (boot_guard_seconds a - u))
     else 0)"

text \<open>A command whose pattern holds the relay closed until it is cancelled.\<close>

definition holds_indefinitely :: "args \<Rightarrow> bool" where
  "holds_indefinitely a \<longleftrightarrow>
     (cmd a = On \<or> cmd a = High \<or> (cmd a = Ignite \<and> maintained a)) \<and> hold_seconds a = None"

text \<open>
  The patterns in the words of the specification, as timestamped relay operations of a
  pattern that starts at \<open>start\<close>; an indefinite hold is released at \<open>released\<close>.
  Pulse: open, close, open after the pulse width. Hold: open, close, open after the hold.
  Maintained call: open, close after 1 s, open after 0.25 s, close after 0.25 s, open
  after the hold. \<^verbatim>\<open>off\<close> and \<^verbatim>\<open>low\<close>: open.
\<close>

definition pattern_trace :: "args \<Rightarrow> int \<Rightarrow> real \<Rightarrow> real \<Rightarrow> (real \<times> relay_op) list" where
  "pattern_trace a p start released =
    (if cmd a = Ignite \<and> maintained a then
       [(start, Open p), (start + 1, Close p), (start + 5/4, Open p), (start + 3/2, Close p),
        (case hold_seconds a of Some h \<Rightarrow> start + 3/2 + max 0 h | None \<Rightarrow> released, Open p)]
     else if cmd a = Ignite \<or> cmd a = PulseHigh then
       [(start, Open p), (start, Close p),
        (start + max 0 (real_of_int (pulse_ms a) / 1000), Open p)]
     else if cmd a = On \<or> cmd a = High then
       [(start, Open p), (start, Close p),
        (case hold_seconds a of Some h \<Rightarrow> start + max 0 h | None \<Rightarrow> released, Open p)]
     else if cmd a = Off \<or> cmd a = Low then [(start, Open p)]
     else [])"

text \<open>The total length of the timed waits of a command's pattern.\<close>

definition timed_span :: "args \<Rightarrow> real" where
  "timed_span a =
    (if cmd a = Ignite \<and> maintained a then
       3/2 + (case hold_seconds a of Some h \<Rightarrow> max 0 h | None \<Rightarrow> 0)
     else if cmd a = Ignite \<or> cmd a = PulseHigh then max 0 (real_of_int (pulse_ms a) / 1000)
     else if cmd a = On \<or> cmd a = High then
       (case hold_seconds a of Some h \<Rightarrow> max 0 h | None \<Rightarrow> 0)
     else 0)"

text \<open>
  The relay operations of a complete invocation on pin \<open>p\<close>: the fail-safe open of
  \<^verbatim>\<open>main\<close>, then the operations of the pattern.
\<close>

definition command_ops :: "args \<Rightarrow> int \<Rightarrow> relay_op list" where
  "command_ops a p =
    Open p #
    (if cmd a = Ignite \<and> maintained a then [Open p, Close p, Open p, Close p, Open p]
     else if cmd a = Ignite \<or> cmd a = PulseHigh \<or> cmd a = On \<or> cmd a = High
       then [Open p, Close p, Open p]
     else if cmd a = Off \<or> cmd a = Low then [Open p]
     else [])"

text \<open>The relay operations of a complete probe sweep.\<close>

definition sweep_ops :: "int list \<Rightarrow> relay_op list" where
  "sweep_ops ps = concat (map (\<lambda>p. [Open p, Close p, Open p]) ps)"

text \<open>The pins that \<^verbatim>\<open>main\<close> reads from the \<^verbatim>\<open>--pins\<close> option of \<^verbatim>\<open>probe\<close>.\<close>

definition probe_pins :: "args \<Rightarrow> exn + int list" where
  "probe_pins a = parse_pins (filter (\<lambda>p. p \<noteq> []) (map strip (split (CHR '','') (pins a))))"

text \<open>The length of one probe cycle: open wait, close wait and post-open wait.\<close>

definition probe_cycle :: "args \<Rightarrow> real" where
  "probe_cycle a =
     max 0 (open_seconds a)
     + max 0 (case close_seconds a of Some c \<Rightarrow> c | None \<Rightarrow> real_of_int (pulse_ms a) / 1000)
     + max 0 (post_open_seconds a)"

text \<open>A computation that never reads the uptime, whatever it returns.\<close>

definition keeps_uptime_reads :: "'a prog \<Rightarrow> bool" where
  "keeps_uptime_reads m \<longleftrightarrow> (\<forall>w r w'. m w = Some (r, w') \<longrightarrow> uptime_reads w' = uptime_reads w)"

section \<open>Properties\<close>

subsection \<open>The timers\<close>

lemma sleep_loop_returns:
  "(case sigint w of None \<Rightarrow> True | Some t \<Rightarrow> deadline \<le> t) \<Longrightarrow> clock w \<le> deadline
    \<Longrightarrow> sleep_loop deadline w = (Inr (), w\<lparr>clock := deadline\<rparr>)"
proof (induction deadline w rule: sleep_loop.induct)
  case (1 deadline w)
  show ?case
  proof (cases "deadline - clock w \<le> 0")
    case True
    with "1.prems" have "clock w = deadline" by simp
    then show ?thesis using True by (subst sleep_loop.simps) simp
  next
    case False
    define d where "d = min 0.2 (deadline - clock w)"
    have d: "0 < d" "clock w + d \<le> deadline" using False by (auto simp: d_def min_def)
    have ts: "time_sleep d w = (Inr (), w\<lparr>clock := clock w + d\<rparr>)"
      using "1.prems"(1) d by (auto simp: time_sleep_def split: option.splits)
    have "sleep_loop deadline (w\<lparr>clock := clock w + d\<rparr>)
            = (Inr (), w\<lparr>clock := clock w + d\<rparr>\<lparr>clock := deadline\<rparr>)"
      using "1.IH"[OF False, of "Inr ()" "w\<lparr>clock := clock w + d\<rparr>" "()"] ts "1.prems"(1) d
      by (simp add: d_def)
    then show ?thesis
      using False ts by (subst sleep_loop.simps) (simp add: d_def)
  qed
qed

lemma sleep_loop_interrupted:
  "sigint w = Some t \<Longrightarrow> t < deadline \<Longrightarrow> clock w < deadline
    \<Longrightarrow> sleep_loop deadline w
        = (Inl KeyboardInterrupt, w\<lparr>clock := max (clock w) t, sigint := None\<rparr>)"
proof (induction deadline w rule: sleep_loop.induct)
  case (1 deadline w)
  define d where "d = min 0.2 (deadline - clock w)"
  have nz: "\<not> deadline - clock w \<le> 0" using "1.prems" by simp
  have d: "0 < d" "clock w + d \<le> deadline" using nz by (auto simp: d_def min_def)
  show ?case
  proof (cases "t < clock w + d")
    case True
    then have "time_sleep d w
        = (Inl KeyboardInterrupt, w\<lparr>clock := max (clock w) t, sigint := None\<rparr>)"
      using "1.prems"(1) by (simp add: time_sleep_def)
    then show ?thesis using nz by (subst sleep_loop.simps) (simp add: d_def)
  next
    case False
    then have ts: "time_sleep d w = (Inr (), w\<lparr>clock := clock w + d\<rparr>)"
      using "1.prems"(1) by (simp add: time_sleep_def)
    have lt: "clock w + d < deadline" using False "1.prems"(2) by simp
    have "sleep_loop deadline (w\<lparr>clock := clock w + d\<rparr>)
            = (Inl KeyboardInterrupt,
               w\<lparr>clock := clock w + d\<rparr>\<lparr>clock := max (clock w + d) t, sigint := None\<rparr>)"
      using "1.IH"[OF nz, of "Inr ()" "w\<lparr>clock := clock w + d\<rparr>" "()"] ts "1.prems" lt
      by (simp add: d_def)
    moreover have "max (clock w + d) t = max (clock w) t" using False d by (simp add: max_def)
    ultimately show ?thesis
      using nz ts by (subst sleep_loop.simps) (simp add: d_def)
  qed
qed

lemma sleep_with_sigint_returns:
  "(case sigint w of None \<Rightarrow> True | Some t \<Rightarrow> clock w + max 0 d \<le> t)
    \<Longrightarrow> sleep_with_sigint d w = Some (Inr (), w\<lparr>clock := clock w + max 0 d\<rparr>)"
  unfolding sleep_with_sigint_def by (simp add: sleep_loop_returns)

lemma sleep_with_sigint_interrupted:
  "sigint w = Some t \<Longrightarrow> 0 < d \<Longrightarrow> t < clock w + d
    \<Longrightarrow> sleep_with_sigint d w
        = Some (Inl KeyboardInterrupt, w\<lparr>clock := max (clock w) t, sigint := None\<rparr>)"
  unfolding sleep_with_sigint_def
  by (simp add: sleep_loop_interrupted max_def)

lemma sleep_forever_interrupted:
  "sigint w = Some t
    \<Longrightarrow> sleep_forever w
        = Some (Inl KeyboardInterrupt, w\<lparr>clock := max (clock w) t, sigint := None\<rparr>)"
proof (induction "nat \<lceil>t - clock w\<rceil>" arbitrary: w rule: less_induct)
  case less
  show ?case
  proof (cases "t < clock w + 1")
    case True
    then have "time_sleep 1 w
        = (Inl KeyboardInterrupt, w\<lparr>clock := max (clock w) t, sigint := None\<rparr>)"
      using less.prems by (simp add: time_sleep_def)
    then show ?thesis by (subst sleep_forever.simps) simp
  next
    case False
    then have ts: "time_sleep 1 w = (Inr (), w\<lparr>clock := clock w + 1\<rparr>)"
      using less.prems by (simp add: time_sleep_def)
    have "0 < \<lceil>t - clock w\<rceil>" using False by simp
    moreover have "\<lceil>t - (clock w + 1)\<rceil> = \<lceil>t - clock w\<rceil> - 1"
    proof -
      have "t - (clock w + 1) = (t - clock w) - 1" by simp
      then show ?thesis by (simp only: ceiling_diff_one)
    qed
    ultimately have "nat \<lceil>t - clock (w\<lparr>clock := clock w + 1\<rparr>)\<rceil> < nat \<lceil>t - clock w\<rceil>"
      by simp
    from less.hyps[OF this] less.prems
    have "sleep_forever (w\<lparr>clock := clock w + 1\<rparr>)
        = Some (Inl KeyboardInterrupt,
                w\<lparr>clock := clock w + 1\<rparr>\<lparr>clock := max (clock w + 1) t, sigint := None\<rparr>)"
      by simp
    moreover have "max (clock w + 1) t = max (clock w) t" using False by (simp add: max_def)
    ultimately show ?thesis using ts by (subst sleep_forever.simps) simp
  qed
qed

lemma sleep_forever_needs_signal:
  assumes "sleep_forever w = Some y"
  shows "sigint w \<noteq> None"
proof (rule sleep_forever.raw_induct [where P = "\<lambda>w y. sigint w \<noteq> None", OF _ assms])
  fix f :: "world \<Rightarrow> ((exn + unit) \<times> world) option" and w y
  assume IH: "\<And>x y. f x = Some y \<Longrightarrow> sigint x \<noteq> None"
    and eq: "(case time_sleep 1 w of (Inl e, w') \<Rightarrow> Some (Inl e, w') | (Inr u, w') \<Rightarrow> f w')
              = Some y"
  show "sigint w \<noteq> None"
  proof
    assume none: "sigint w = None"
    then have "time_sleep 1 w = (Inr (), w\<lparr>clock := clock w + 1\<rparr>)"
      by (simp add: time_sleep_def)
    with eq have "f (w\<lparr>clock := clock w + 1\<rparr>) = Some y"
      by simp
    from IH[OF this] none show False by simp
  qed
qed

lemma sleep_forever_diverges: "sigint w = None \<Longrightarrow> sleep_forever w = None"
  using sleep_forever_needs_signal [of w] by (cases "sleep_forever w") auto

subsection \<open>Channel resolution\<close>

lemmas resolver_defs = resolve_relay_ref_def strip_def is_space_def RELAY_ALIASES_def
  KNOWN_RELAYS_def py_int_def py_nat_def is_digit_def digit_val_def

lemma sorted_known_names:
  "sort (map fst KNOWN_RELAYS) = [''aux_1'', ''aux_2'', ''high_flame'', ''low_flame'']"
  by (simp add: KNOWN_RELAYS_def)

lemma unknown_relay_message_eq:
  "unknown_relay_message s =
     ''Unknown relay '' @ [CHR 0x27] @ s @ [CHR 0x27]
       @ ''. Use one of: aux_1, aux_2, high_flame, low_flame (or a BCM pin number)''"
  by (simp add: unknown_relay_message_def sorted_known_names)

lemma message_names_known:
  assumes "name \<in> set (map fst KNOWN_RELAYS)"
  shows "sublist name (unknown_relay_message s)"
proof -
  let ?p = "''Unknown relay '' @ [CHR 0x27] @ s @ [CHR 0x27] @ ''. Use one of: ''"
  from assms consider "name = ''low_flame''" | "name = ''high_flame''"
    | "name = ''aux_1''" | "name = ''aux_2''"
    by (auto simp: KNOWN_RELAYS_def)
  then show ?thesis
  proof cases
    case 1
    have "unknown_relay_message s
        = (?p @ ''aux_1, aux_2, high_flame, '') @ name @ '' (or a BCM pin number)''"
      by (simp add: unknown_relay_message_eq 1)
    then show ?thesis by (simp only: sublist_appendI)
  next
    case 2
    have "unknown_relay_message s
        = (?p @ ''aux_1, aux_2, '') @ name @ '', low_flame (or a BCM pin number)''"
      by (simp add: unknown_relay_message_eq 2)
    then show ?thesis by (simp only: sublist_appendI)
  next
    case 3
    have "unknown_relay_message s
        = ?p @ name @ '', aux_2, high_flame, low_flame (or a BCM pin number)''"
      by (simp add: unknown_relay_message_eq 3)
    then show ?thesis by (simp only: sublist_appendI)
  next
    case 4
    have "unknown_relay_message s
        = (?p @ ''aux_1, '') @ name @ '', high_flame, low_flame (or a BCM pin number)''"
      by (simp add: unknown_relay_message_eq 4)
    then show ?thesis by (simp only: sublist_appendI)
  qed
qed

lemma alias_targets_known:
  "map_of RELAY_ALIASES t = Some c \<Longrightarrow> \<exists>p. map_of KNOWN_RELAYS c = Some p"
  by (auto simp: RELAY_ALIASES_def KNOWN_RELAYS_def split: if_splits)

lemma known_pins:
  "map_of KNOWN_RELAYS c = Some p \<Longrightarrow> p \<in> {4, 22, 6, 26}"
  by (auto simp: KNOWN_RELAYS_def split: if_splits)

lemma resolve_str:
  "strip s \<noteq> [] \<Longrightarrow>
   resolve_relay_ref (Some (RefStr s)) =
     (case map_of RELAY_ALIASES (strip s) of
        Some c \<Rightarrow> Inr (map_of KNOWN_RELAYS c)
      | None \<Rightarrow>
         (case map_of KNOWN_RELAYS (strip s) of
            Some p \<Rightarrow> Inr (Some p)
          | None \<Rightarrow>
             (case py_int (strip s) of
                Some n \<Rightarrow> Inr (Some n)
              | None \<Rightarrow> Inl (SystemExit (unknown_relay_message (strip s))))))"
  by (auto simp: resolve_relay_ref_def Let_def split: option.splits dest: alias_targets_known)

lemma alias_same_as_canonical:
  assumes "map_of RELAY_ALIASES A = Some C"
  shows "resolve_relay_ref (Some (RefStr A)) = resolve_relay_ref (Some (RefStr C))"
proof -
  from assms have "(A, C) \<in> set RELAY_ALIASES" by (rule map_of_SomeD)
  then show ?thesis
    unfolding RELAY_ALIASES_def
    by (auto simp: resolver_defs)
qed

text \<open>
  Claim C5 as stated fails: a blank reference is in neither table and is not an integer,
  and yet resolves to no channel without an error.
\<close>

theorem blank_reference_counterexample:
  "map_of RELAY_ALIASES (strip ''  '') = None
   \<and> map_of KNOWN_RELAYS (strip ''  '') = None
   \<and> py_int ''  '' = None
   \<and> resolve_relay_ref (Some (RefStr ''  '')) = Inr None"
  by (simp add: resolver_defs)

text \<open>
  Claim C5, amended. A blank reference resolves to no channel. Resolution of any other
  string looks the stripped reference up in the alias table, then looks the result up in
  the table of canonical names, then parses it as an integer. Hence an alias resolves to
  what its canonical name resolves to, and a reference that is not blank, is in neither
  table and is not an integer fails with a \<^verbatim>\<open>SystemExit\<close> whose message contains
  every canonical name.
\<close>

theorem resolve_order:
  "(\<forall>A C. map_of RELAY_ALIASES A = Some C \<longrightarrow>
      resolve_relay_ref (Some (RefStr A)) = resolve_relay_ref (Some (RefStr C)))
   \<and> (strip s = [] \<longrightarrow> resolve_relay_ref (Some (RefStr s)) = Inr None)
   \<and> (strip s \<noteq> [] \<longrightarrow>
       (\<forall>c. map_of RELAY_ALIASES (strip s) = Some c \<longrightarrow>
          map_of KNOWN_RELAYS c \<noteq> None
          \<and> resolve_relay_ref (Some (RefStr s)) = Inr (map_of KNOWN_RELAYS c))
     \<and> (\<forall>p. map_of RELAY_ALIASES (strip s) = None \<and> map_of KNOWN_RELAYS (strip s) = Some p \<longrightarrow>
          resolve_relay_ref (Some (RefStr s)) = Inr (Some p))
     \<and> (\<forall>n. map_of RELAY_ALIASES (strip s) = None \<and> map_of KNOWN_RELAYS (strip s) = None
            \<and> py_int (strip s) = Some n \<longrightarrow>
          resolve_relay_ref (Some (RefStr s)) = Inr (Some n))
     \<and> (map_of RELAY_ALIASES (strip s) = None \<and> map_of KNOWN_RELAYS (strip s) = None
            \<and> py_int (strip s) = None \<longrightarrow>
          resolve_relay_ref (Some (RefStr s)) = Inl (SystemExit (unknown_relay_message (strip s)))
          \<and> (\<forall>name \<in> set (map fst KNOWN_RELAYS).
                sublist name (unknown_relay_message (strip s)))))"
proof -
  have a: "\<forall>A C. map_of RELAY_ALIASES A = Some C \<longrightarrow>
      resolve_relay_ref (Some (RefStr A)) = resolve_relay_ref (Some (RefStr C))"
    using alias_same_as_canonical by blast
  have b: "\<forall>name \<in> set (map fst KNOWN_RELAYS). sublist name (unknown_relay_message (strip s))"
    using message_names_known by blast
  have c: "map_of KNOWN_RELAYS c \<noteq> None
          \<and> resolve_relay_ref (Some (RefStr s)) = Inr (map_of KNOWN_RELAYS c)"
    if "strip s \<noteq> []" "map_of RELAY_ALIASES (strip s) = Some c" for c
    using that alias_targets_known [of "strip s" c] by (simp add: resolve_str)
  have d: "resolve_relay_ref (Some (RefStr s)) = Inr (Some p)"
    if "strip s \<noteq> []" "map_of RELAY_ALIASES (strip s) = None"
      "map_of KNOWN_RELAYS (strip s) = Some p" for p
    using that by (simp add: resolve_str)
  have e: "resolve_relay_ref (Some (RefStr s)) = Inr (Some n)"
    if "strip s \<noteq> []" "map_of RELAY_ALIASES (strip s) = None"
      "map_of KNOWN_RELAYS (strip s) = None" "py_int (strip s) = Some n" for n
    using that by (simp add: resolve_str)
  have f: "resolve_relay_ref (Some (RefStr s)) = Inl (SystemExit (unknown_relay_message (strip s)))"
    if "strip s \<noteq> []" "map_of RELAY_ALIASES (strip s) = None"
      "map_of KNOWN_RELAYS (strip s) = None" "py_int (strip s) = None"
    using that by (simp add: resolve_str)
  have g: "strip s = [] \<longrightarrow> resolve_relay_ref (Some (RefStr s)) = Inr None"
    by (simp add: resolve_relay_ref_def)
  from a b c d e f g show ?thesis by blast
qed

text \<open>
  Witness for the amended C5: an alias and its canonical name, a blank reference, an alias
  between blanks, a canonical name, a pin number and an unknown name.
\<close>

theorem resolve_order_witness:
  "map_of RELAY_ALIASES ''main'' = Some ''low_flame''
   \<and> resolve_relay_ref (Some (RefStr ''main'')) = resolve_relay_ref (Some (RefStr ''low_flame''))
   \<and> resolve_relay_ref (Some (RefStr '' '')) = Inr None
   \<and> resolve_relay_ref (Some (RefStr '' gpio22 '')) = Inr (Some 22)
   \<and> resolve_relay_ref (Some (RefStr ''aux_1'')) = Inr (Some 6)
   \<and> resolve_relay_ref (Some (RefStr ''17'')) = Inr (Some 17)
   \<and> resolve_relay_ref (Some (RefStr ''pilot''))
       = Inl (SystemExit (unknown_relay_message ''pilot''))
   \<and> sublist ''high_flame'' (unknown_relay_message ''pilot'')"
proof -
  have al: "map_of RELAY_ALIASES ''main'' = Some ''low_flame''"
    by (simp add: RELAY_ALIASES_def)
  have s1: "strip '' gpio22 '' = ''gpio22''" "strip ''aux_1'' = ''aux_1''"
    "strip ''17'' = ''17''" "strip ''pilot'' = ''pilot''"
    by (simp_all add: strip_def is_space_def)
  have t1: "map_of RELAY_ALIASES ''gpio22'' = Some ''high_flame''"
    "map_of KNOWN_RELAYS ''high_flame'' = Some 22"
    "map_of RELAY_ALIASES ''aux_1'' = None" "map_of KNOWN_RELAYS ''aux_1'' = Some 6"
    "map_of RELAY_ALIASES ''17'' = None" "map_of KNOWN_RELAYS ''17'' = None"
    "map_of RELAY_ALIASES ''pilot'' = None" "map_of KNOWN_RELAYS ''pilot'' = None"
    by (simp_all add: RELAY_ALIASES_def KNOWN_RELAYS_def)
  have p1: "py_int ''17'' = Some 17" "py_int ''pilot'' = None"
    by (simp_all add: py_int_def py_nat_def strip_def is_space_def is_digit_def digit_val_def)
  have k: "''high_flame'' \<in> set (map fst KNOWN_RELAYS)"
    by (simp add: KNOWN_RELAYS_def)
  have "resolve_relay_ref (Some (RefStr ''main'')) = resolve_relay_ref (Some (RefStr ''low_flame''))"
    using resolve_order [of "''main''"] al by blast
  moreover have "resolve_relay_ref (Some (RefStr '' '')) = Inr None"
    using resolve_order [of "'' ''"] by (simp add: strip_def is_space_def)
  moreover have "resolve_relay_ref (Some (RefStr '' gpio22 '')) = Inr (Some 22)"
    using resolve_order [of "'' gpio22 ''"] by (simp add: s1 t1)
  moreover have "resolve_relay_ref (Some (RefStr ''aux_1'')) = Inr (Some 6)"
    using resolve_order [of "''aux_1''"] by (simp add: s1 t1)
  moreover have "resolve_relay_ref (Some (RefStr ''17'')) = Inr (Some 17)"
    using resolve_order [of "''17''"] by (simp add: s1 t1 p1)
  moreover have "resolve_relay_ref (Some (RefStr ''pilot''))
       = Inl (SystemExit (unknown_relay_message ''pilot''))
     \<and> (\<forall>name \<in> set (map fst KNOWN_RELAYS). sublist name (unknown_relay_message ''pilot''))"
    using resolve_order [of "''pilot''"] by (simp add: s1 t1 p1)
  ultimately show ?thesis using al k by blast
qed

text \<open>
  Claim C6 as stated fails: the reference \<^verbatim>\<open>-5\<close> is parsed as an integer and returned,
  and resolution makes no sign check.
\<close>

theorem negative_channel_counterexample:
  "resolve_relay_ref (Some (RefStr ''-5'')) = Inr (Some (- 5))"
  by (simp add: resolver_defs)

lemma resolve_str_origin:
  assumes r: "resolve_relay_ref (Some (RefStr raw)) = Inr (Some n)"
  shows "n \<in> {4, 22, 6, 26} \<or> py_int (strip raw) = Some n"
proof -
  have ne: "strip raw \<noteq> []"
    using r by (auto simp: resolve_relay_ref_def)
  note eq = r [unfolded resolve_str [OF ne]]
  show ?thesis
  proof (cases "map_of RELAY_ALIASES (strip raw)")
    case (Some c)
    with eq have "map_of KNOWN_RELAYS c = Some n" by simp
    then show ?thesis using known_pins by blast
  next
    case None
    show ?thesis
    proof (cases "map_of KNOWN_RELAYS (strip raw)")
      case (Some p)
      with eq None have "p = n" by simp
      with Some show ?thesis using known_pins by blast
    next
      case k: None
      with eq None show ?thesis by (cases "py_int (strip raw)") simp_all
    qed
  qed
qed

lemma resolve_name_nonneg:
  assumes h: "map_of RELAY_ALIASES (strip s) \<noteq> None \<or> map_of KNOWN_RELAYS (strip s) \<noteq> None"
  shows "\<exists>m \<ge> 0. resolve_relay_ref (Some (RefStr s)) = Inr (Some m)"
proof -
  have ne: "strip s \<noteq> []"
    using h by (auto simp: RELAY_ALIASES_def KNOWN_RELAYS_def)
  have "\<exists>c m. map_of KNOWN_RELAYS c = Some m \<and> resolve_relay_ref (Some (RefStr s)) = Inr (Some m)"
  proof (cases "map_of RELAY_ALIASES (strip s)")
    case (Some c)
    then obtain p where "map_of KNOWN_RELAYS c = Some p"
      using alias_targets_known by blast
    with Some show ?thesis by (auto simp: resolve_str [OF ne])
  next
    case None
    with h obtain p where "map_of KNOWN_RELAYS (strip s) = Some p" by auto
    with None show ?thesis by (auto simp: resolve_str [OF ne])
  qed
  then obtain c m where m: "map_of KNOWN_RELAYS c = Some m"
    "resolve_relay_ref (Some (RefStr s)) = Inr (Some m)" by blast
  from known_pins [OF m(1)] have "0 \<le> m" by auto
  with m(2) show ?thesis by blast
qed

text \<open>
  Claim C6, amended. A channel that the resolver emits is one of the four pins of the
  name table, or the integer reference itself, or the integer that the stripped string
  parses to; a reference that is an alias or a canonical name resolves to a
  non-negative channel.
\<close>

theorem resolver_output_origin:
  "(resolve_relay_ref v = Inr (Some n) \<longrightarrow>
      n \<in> {4, 22, 6, 26} \<or> v = Some (RefInt n)
      \<or> (\<exists>s. v = Some (RefStr s) \<and> py_int (strip s) = Some n))
   \<and> (map_of RELAY_ALIASES (strip s) \<noteq> None \<or> map_of KNOWN_RELAYS (strip s) \<noteq> None \<longrightarrow>
      (\<exists>m \<ge> 0. resolve_relay_ref (Some (RefStr s)) = Inr (Some m)))"
proof (intro conjI impI)
  assume r: "resolve_relay_ref v = Inr (Some n)"
  show "n \<in> {4, 22, 6, 26} \<or> v = Some (RefInt n)
      \<or> (\<exists>s. v = Some (RefStr s) \<and> py_int (strip s) = Some n)"
  proof (cases v)
    case None
    with r show ?thesis by (simp add: resolve_relay_ref_def)
  next
    case (Some ref)
    show ?thesis
    proof (cases ref)
      case (RefInt k)
      with r Some show ?thesis by (simp add: resolve_relay_ref_def)
    next
      case (RefStr raw)
      with r Some resolve_str_origin [of raw n] show ?thesis by blast
    qed
  qed
next
  assume "map_of RELAY_ALIASES (strip s) \<noteq> None \<or> map_of KNOWN_RELAYS (strip s) \<noteq> None"
  then show "\<exists>m \<ge> 0. resolve_relay_ref (Some (RefStr s)) = Inr (Some m)"
    by (rule resolve_name_nonneg)
qed

text \<open>Witness for the amended C6: a negative literal and a canonical name.\<close>

theorem resolver_output_origin_witness:
  "resolve_relay_ref (Some (RefStr ''-5'')) = Inr (Some (- 5))
   \<and> py_int (strip ''-5'') = Some (- 5)
   \<and> map_of KNOWN_RELAYS (strip ''aux_2'') \<noteq> None
   \<and> (\<exists>m \<ge> 0. resolve_relay_ref (Some (RefStr ''aux_2'')) = Inr (Some m))"
proof -
  have r: "resolve_relay_ref (Some (RefStr ''-5'')) = Inr (Some (- 5))"
    by (simp add: resolver_defs)
  have k: "map_of KNOWN_RELAYS (strip ''aux_2'') \<noteq> None"
    by (simp add: KNOWN_RELAYS_def strip_def is_space_def)
  have "py_int (strip ''-5'') = Some (- 5)"
    using resolver_output_origin [of "Some (RefStr ''-5'')" "- 5"] r by simp
  moreover have "\<exists>m \<ge> 0. resolve_relay_ref (Some (RefStr ''aux_2'')) = Inr (Some m)"
    using resolver_output_origin [of _ _ "''aux_2''"] k by blast
  ultimately show ?thesis using r k by blast
qed

subsection \<open>Relay selection\<close>

lemma select_pin_falsy:
  assumes "resolve_relay_ref (map_option RefStr pref) = Inr None
           \<or> resolve_relay_ref (map_option RefStr pref) = Inr (Some 0)"
  shows "select_pin pref legacy = Inr legacy"
  using assms by (cases legacy) (auto simp: select_pin_def truthy_def resolve_relay_ref_def)

lemma select_pin_zero:
  assumes "select_pin pref legacy = Inr (Some 0)"
  shows "legacy = Some 0"
proof (cases "resolve_relay_ref (map_option RefStr pref)")
  case (Inl e)
  with assms show ?thesis by (simp add: select_pin_def)
next
  case (Inr a)
  show ?thesis
  proof (cases "truthy a")
    case True
    with assms Inr show ?thesis by (auto simp: select_pin_def truthy_def)
  next
    case False
    with assms Inr have "resolve_relay_ref (map_option RefInt legacy) = Inr (Some 0)"
      by (simp add: select_pin_def)
    then show ?thesis by (cases legacy) (simp_all add: resolve_relay_ref_def)
  qed
qed

lemma main_missing_main_pin:
  assumes "cmd a \<in> {Ignite, On, Off}"
    and "select_pin (main_relay a) (pin_main a) = Inr None"
    and "select_pin (high_relay a) (pin_high a) = Inr hp"
  shows "main a w = Some (Inl (SystemExit
     ''Set --main-relay (preferred) / --pin-main, or FIREPLACE_MAIN_RELAY / FIREPLACE_PIN_MAIN''), w)"
  using assms by (auto simp: main_def make_relay_def and_then_def raise_def)

lemma main_missing_high_pin:
  assumes "cmd a \<in> {High, Low, PulseHigh}"
    and "select_pin (main_relay a) (pin_main a) = Inr mp"
    and "select_pin (high_relay a) (pin_high a) = Inr None"
  shows "main a w = Some (Inl (SystemExit
     ''Set --high-relay (preferred) / --pin-high, or FIREPLACE_HIGH_RELAY / FIREPLACE_PIN_HIGH''), w)"
  using assms by (auto simp: main_def make_relay_def and_then_def raise_def ret_def)

text \<open>
  Claim C10. An absent or blank preferred reference resolves to no channel without an
  error. A preferred reference that resolves to no channel or to channel 0 is falsy, so
  the selected pin is the legacy pin option; channel 0 is selected only when the legacy
  option is 0; and with no legacy option a command that needs the relay exits with the
  missing-configuration message.
\<close>

theorem preferred_zero_is_absent:
  "resolve_relay_ref None = Inr None
   \<and> (strip s = [] \<longrightarrow> resolve_relay_ref (Some (RefStr s)) = Inr None)
   \<and> (resolve_relay_ref (map_option RefStr pref) = Inr None
        \<or> resolve_relay_ref (map_option RefStr pref) = Inr (Some 0)
      \<longrightarrow> select_pin pref legacy = Inr legacy)
   \<and> (select_pin pref legacy = Inr (Some 0) \<longrightarrow> legacy = Some 0)
   \<and> (cmd a \<in> {Ignite, On, Off}
        \<and> (resolve_relay_ref (map_option RefStr (main_relay a)) = Inr None
            \<or> resolve_relay_ref (map_option RefStr (main_relay a)) = Inr (Some 0))
        \<and> pin_main a = None
        \<and> select_pin (high_relay a) (pin_high a) = Inr hp
      \<longrightarrow> main a w = Some (Inl (SystemExit
     ''Set --main-relay (preferred) / --pin-main, or FIREPLACE_MAIN_RELAY / FIREPLACE_PIN_MAIN''), w))
   \<and> (cmd a \<in> {High, Low, PulseHigh}
        \<and> (resolve_relay_ref (map_option RefStr (high_relay a)) = Inr None
            \<or> resolve_relay_ref (map_option RefStr (high_relay a)) = Inr (Some 0))
        \<and> pin_high a = None
        \<and> select_pin (main_relay a) (pin_main a) = Inr mp
      \<longrightarrow> main a w = Some (Inl (SystemExit
     ''Set --high-relay (preferred) / --pin-high, or FIREPLACE_HIGH_RELAY / FIREPLACE_PIN_HIGH''), w))"
proof -
  have 1: "resolve_relay_ref None = Inr None"
    by (simp add: resolve_relay_ref_def)
  have 2: "strip s = [] \<longrightarrow> resolve_relay_ref (Some (RefStr s)) = Inr None"
    by (simp add: resolve_relay_ref_def)
  have 5: "main a w = Some (Inl (SystemExit
     ''Set --main-relay (preferred) / --pin-main, or FIREPLACE_MAIN_RELAY / FIREPLACE_PIN_MAIN''), w)"
    if "cmd a \<in> {Ignite, On, Off}"
      "resolve_relay_ref (map_option RefStr (main_relay a)) = Inr None
        \<or> resolve_relay_ref (map_option RefStr (main_relay a)) = Inr (Some 0)"
      "pin_main a = None" "select_pin (high_relay a) (pin_high a) = Inr hp"
  proof -
    have "select_pin (main_relay a) (pin_main a) = Inr None"
      using select_pin_falsy [OF that(2), of "pin_main a"] that(3) by simp
    with that show ?thesis by (intro main_missing_main_pin)
  qed
  have 6: "main a w = Some (Inl (SystemExit
     ''Set --high-relay (preferred) / --pin-high, or FIREPLACE_HIGH_RELAY / FIREPLACE_PIN_HIGH''), w)"
    if "cmd a \<in> {High, Low, PulseHigh}"
      "resolve_relay_ref (map_option RefStr (high_relay a)) = Inr None
        \<or> resolve_relay_ref (map_option RefStr (high_relay a)) = Inr (Some 0)"
      "pin_high a = None" "select_pin (main_relay a) (pin_main a) = Inr mp"
  proof -
    have "select_pin (high_relay a) (pin_high a) = Inr None"
      using select_pin_falsy [OF that(2), of "pin_high a"] that(3) by simp
    with that show ?thesis by (intro main_missing_high_pin)
  qed
  from 1 2 5 6 select_pin_falsy [of pref legacy] select_pin_zero [of pref legacy]
  show ?thesis by blast
qed

text \<open>
  Witness for C10: a blank reference, and the preferred reference \<^verbatim>\<open>0\<close> with a legacy
  pin, with legacy pin 0 and with no legacy pin.
\<close>

theorem preferred_zero_is_absent_witness:
  "strip ''  '' = []
   \<and> resolve_relay_ref (Some (RefStr ''  '')) = Inr None
   \<and> resolve_relay_ref (map_option RefStr (Some ''0'')) = Inr (Some 0)
   \<and> select_pin (Some ''0'') (Some 22) = Inr (Some 22)
   \<and> select_pin (Some ''0'') (Some 0) = Inr (Some 0)
   \<and> main (ignite_args\<lparr>main_relay := Some ''0''\<rparr>) world0 = Some (Inl (SystemExit
     ''Set --main-relay (preferred) / --pin-main, or FIREPLACE_MAIN_RELAY / FIREPLACE_PIN_MAIN''), world0)
   \<and> main (ignite_args\<lparr>cmd := Low, high_relay := Some ''0''\<rparr>) world0 = Some (Inl (SystemExit
     ''Set --high-relay (preferred) / --pin-high, or FIREPLACE_HIGH_RELAY / FIREPLACE_PIN_HIGH''), world0)"
proof -
  have st: "strip ''  '' = []" by (simp add: strip_def is_space_def)
  have z: "resolve_relay_ref (map_option RefStr (Some ''0'')) = Inr (Some 0)"
    by (simp add: resolver_defs)
  have sp: "select_pin None None = Inr None" "select_pin (Some ''low_flame'') None = Inr (Some 4)"
    by (simp_all add: select_pin_def truthy_def resolver_defs)
  have z0: "select_pin (Some ''0'') (Some 0) = Inr (Some 0)"
    by (simp add: select_pin_def truthy_def resolver_defs)
  have "resolve_relay_ref (Some (RefStr ''  '')) = Inr None"
    using preferred_zero_is_absent [of "''  ''"] st by blast
  moreover have "select_pin (Some ''0'') (Some 22) = Inr (Some 22)"
    using preferred_zero_is_absent [of _ "Some ''0''" "Some 22"] z by blast
  moreover have "main (ignite_args\<lparr>main_relay := Some ''0''\<rparr>) world0 = Some (Inl (SystemExit
     ''Set --main-relay (preferred) / --pin-main, or FIREPLACE_MAIN_RELAY / FIREPLACE_PIN_MAIN''), world0)"
    using preferred_zero_is_absent [of _ _ _ "ignite_args\<lparr>main_relay := Some ''0''\<rparr>" None world0] z sp
    by (simp add: ignite_args_def)
  moreover have "main (ignite_args\<lparr>cmd := Low, high_relay := Some ''0''\<rparr>) world0 = Some (Inl (SystemExit
     ''Set --high-relay (preferred) / --pin-high, or FIREPLACE_HIGH_RELAY / FIREPLACE_PIN_HIGH''), world0)"
    using preferred_zero_is_absent [of _ _ _ "ignite_args\<lparr>cmd := Low, high_relay := Some ''0''\<rparr>" _ _ "Some 4"] z sp
    by (simp add: ignite_args_def)
  ultimately show ?thesis
    using st z z0 preferred_zero_is_absent [of _ "Some ''0''" "Some 0"] by blast
qed

subsection \<open>Running the primitives\<close>

lemma relay_open_dry:
  "dry_run r \<Longrightarrow> relay_open r w
     = Some (Inr (), w\<lparr>trace := trace w @ [(clock w, Open (pin (cfg r)))],
                          stdout := stdout w @ [DryRunOpen (pin (cfg r))]\<rparr>)"
  by (simp add: relay_open_def and_then_def log_op_def print_def)

lemma relay_close_dry:
  "dry_run r \<Longrightarrow> relay_close r w
     = Some (Inr (), w\<lparr>trace := trace w @ [(clock w, Close (pin (cfg r)))],
                          stdout := stdout w @ [DryRunClose (pin (cfg r))]\<rparr>)"
  by (simp add: relay_close_def and_then_def log_op_def print_def)

lemma relay_open_live:
  "\<not> dry_run r \<Longrightarrow> relay_open r w
     = Some (if write_fails w (writes w) then Inl DeviceError else Inr (),
             w\<lparr>trace := trace w @ [(clock w, Open (pin (cfg r)))], writes := Suc (writes w)\<rparr>)"
  by (simp add: relay_open_def and_then_def log_op_def device_write_def)

lemma relay_close_live:
  "\<not> dry_run r \<Longrightarrow> relay_close r w
     = Some (if write_fails w (writes w) then Inl DeviceError else Inr (),
             w\<lparr>trace := trace w @ [(clock w, Close (pin (cfg r)))], writes := Suc (writes w)\<rparr>)"
  by (simp add: relay_close_def and_then_def log_op_def device_write_def)

lemmas exec_simps = steps.simps and_then_def ret_def raise_def print_def
  catch_keyboard_interrupt_def sleep_with_sigint_returns

subsection \<open>The maintained-call pattern\<close>

lemma maintained_timed:
  assumes hw: "dry_run r \<or> (\<forall>k. \<not> write_fails w k)"
    and sig: "\<forall>t. sigint w = Some t \<longrightarrow> clock w + 3/2 + max 0 h \<le> t"
  shows "\<exists>w'. cmd_maintained r (Some h) w = Some (Inr (), w')
      \<and> trace w' = trace w @
          [(clock w, Open (pin (cfg r))), (clock w + 1, Close (pin (cfg r))),
           (clock w + 5/4, Open (pin (cfg r))), (clock w + 3/2, Close (pin (cfg r))),
           (clock w + 3/2 + max 0 h, Open (pin (cfg r)))]
      \<and> clock w' = clock w + 3/2 + max 0 h"
proof (cases "dry_run r")
  case True
  with sig show ?thesis
    by (cases "sigint w")
       (simp_all add: cmd_maintained_def exec_simps relay_open_dry relay_close_dry)
next
  case False
  with hw have ok: "\<And>k. write_fails w k = False" by simp
  from False sig show ?thesis
    by (cases "sigint w")
       (simp_all add: cmd_maintained_def exec_simps relay_open_live relay_close_live ok)
qed

lemma maintained_indefinite:
  assumes hw: "dry_run r \<or> (\<forall>k. \<not> write_fails w k)"
    and sig: "sigint w = Some t" "clock w + 3/2 \<le> t"
  shows "\<exists>w'. cmd_maintained r None w = Some (Inr (), w')
      \<and> trace w' = trace w @
          [(clock w, Open (pin (cfg r))), (clock w + 1, Close (pin (cfg r))),
           (clock w + 5/4, Open (pin (cfg r))), (clock w + 3/2, Close (pin (cfg r))),
           (t, Open (pin (cfg r)))]
      \<and> clock w' = t"
proof (cases "dry_run r")
  case True
  with sig show ?thesis
    by (simp add: cmd_maintained_def exec_simps relay_open_dry relay_close_dry
        sleep_forever_interrupted max_def)
next
  case False
  with hw have ok: "\<And>k. write_fails w k = False" by simp
  from False sig show ?thesis
    by (simp add: cmd_maintained_def exec_simps relay_open_live relay_close_live ok
        sleep_forever_interrupted max_def)
qed

lemma maintained_never_returns:
  assumes hw: "dry_run r \<or> (\<forall>k. \<not> write_fails w k)"
    and sig: "sigint w = None"
  shows "cmd_maintained r None w = None"
proof (cases "dry_run r")
  case True
  with sig show ?thesis
    by (simp add: cmd_maintained_def exec_simps relay_open_dry relay_close_dry
        sleep_forever_diverges)
next
  case False
  with hw have ok: "\<And>k. write_fails w k = False" by simp
  from False sig show ?thesis
    by (simp add: cmd_maintained_def exec_simps relay_open_live relay_close_live ok
        sleep_forever_diverges)
qed

lemma maintained_ignores_pulse_ms:
  assumes "cmd a = Ignite" "maintained a"
  shows "main (a\<lparr>pulse_ms := pw\<rparr>) w = main a w"
proof -
  have mk: "make_relay n msg sel (a\<lparr>pulse_ms := pw\<rparr>) = make_relay n msg sel a" for n msg sel
    by (simp add: make_relay_def split: option.splits)
  have dp: "dispatch (a\<lparr>pulse_ms := pw\<rparr>) m h = dispatch a m h" for m h
    using assms by (simp add: dispatch_def split: option.splits)
  show ?thesis
    using assms by (simp add: main_def mk dp split: sum.splits)
qed

text \<open>
  Claim C7. With working relay writes and no cancellation before the pattern ends, the
  maintained-call pattern opens the relay, closes it 1 s later, opens it 0.25 s later,
  closes it 0.25 s later and opens it after the hold duration. With no hold duration it
  holds until the cancellation and then opens, and never returns when no cancellation
  comes. The pulse width has no effect on an \<^verbatim>\<open>ignite --maintained\<close> invocation.
\<close>

theorem maintained_call_sequence:
  "(dry_run r \<or> (\<forall>k. \<not> write_fails w k) \<longrightarrow>
      ((\<forall>t. sigint w = Some t \<longrightarrow> clock w + 3/2 + max 0 h \<le> t) \<longrightarrow>
         (\<exists>w'. cmd_maintained r (Some h) w = Some (Inr (), w')
            \<and> trace w' = trace w @
                [(clock w, Open (pin (cfg r))), (clock w + 1, Close (pin (cfg r))),
                 (clock w + 5/4, Open (pin (cfg r))), (clock w + 3/2, Close (pin (cfg r))),
                 (clock w + 3/2 + max 0 h, Open (pin (cfg r)))]
            \<and> clock w' = clock w + 3/2 + max 0 h))
    \<and> (sigint w = Some t \<and> clock w + 3/2 \<le> t \<longrightarrow>
         (\<exists>w'. cmd_maintained r None w = Some (Inr (), w')
            \<and> trace w' = trace w @
                [(clock w, Open (pin (cfg r))), (clock w + 1, Close (pin (cfg r))),
                 (clock w + 5/4, Open (pin (cfg r))), (clock w + 3/2, Close (pin (cfg r))),
                 (t, Open (pin (cfg r)))]
            \<and> clock w' = t))
    \<and> (sigint w = None \<longrightarrow> cmd_maintained r None w = None))
   \<and> (cmd a = Ignite \<and> maintained a \<longrightarrow> main (a\<lparr>pulse_ms := pw\<rparr>) w = main a w)"
  using maintained_timed [of r w h] maintained_indefinite [of r w t]
    maintained_never_returns [of r w] maintained_ignores_pulse_ms [of a pw w]
  by blast

text \<open>
  Witness for C7: the live relay on pin 4 held for 2 s, held until a cancellation at
  10 s, held with no cancellation, and a pulse width of 1000 ms.
\<close>

theorem maintained_call_sequence_witness:
  "(\<exists>w'. cmd_maintained low_flame_relay (Some 2) world0 = Some (Inr (), w')
      \<and> trace w' = [(0, Open 4), (1, Close 4), (5/4, Open 4), (3/2, Close 4), (7/2, Open 4)]
      \<and> clock w' = 7/2)
   \<and> (\<exists>w'. cmd_maintained low_flame_relay None (world0\<lparr>sigint := Some 10\<rparr>) = Some (Inr (), w')
      \<and> trace w' = [(0, Open 4), (1, Close 4), (5/4, Open 4), (3/2, Close 4), (10, Open 4)]
      \<and> clock w' = 10)
   \<and> cmd_maintained low_flame_relay None world0 = None
   \<and> main (ignite_args\<lparr>maintained := True, pulse_ms := 1000\<rparr>) world0
       = main (ignite_args\<lparr>maintained := True\<rparr>) world0"
proof -
  have a: "\<exists>w'. cmd_maintained low_flame_relay (Some 2) world0 = Some (Inr (), w')
      \<and> trace w' = [(0, Open 4), (1, Close 4), (5/4, Open 4), (3/2, Close 4), (7/2, Open 4)]
      \<and> clock w' = 7/2"
    using maintained_call_sequence [of low_flame_relay world0 2]
    by (simp add: low_flame_relay_def world0_def)
  have b: "\<exists>w'. cmd_maintained low_flame_relay None (world0\<lparr>sigint := Some 10\<rparr>) = Some (Inr (), w')
      \<and> trace w' = [(0, Open 4), (1, Close 4), (5/4, Open 4), (3/2, Close 4), (10, Open 4)]
      \<and> clock w' = 10"
    using maintained_call_sequence [of low_flame_relay "world0\<lparr>sigint := Some 10\<rparr>" _ 10]
    by (simp add: low_flame_relay_def world0_def)
  have c: "cmd_maintained low_flame_relay None world0 = None"
    using maintained_call_sequence [of low_flame_relay world0]
    by (simp add: low_flame_relay_def world0_def)
  have d: "main (ignite_args\<lparr>maintained := True, pulse_ms := 1000\<rparr>) world0
       = main (ignite_args\<lparr>maintained := True\<rparr>) world0"
    using maintained_call_sequence [of _ world0 _ _ "ignite_args\<lparr>maintained := True\<rparr>" 1000]
    by (simp add: ignite_args_def)
  from a b c d show ?thesis by blast
qed

subsection \<open>The probe sweep\<close>

lemma Relay_init_ok:
  "d \<or> (gpiozero w \<and> \<not> device_fails w (pin c))
    \<Longrightarrow> Relay_init c d w = Some (Inr \<lparr>cfg = c, dry_run = d\<rparr>, w)"
  by (auto simp: Relay_init_def ret_def)

lemma probe_pin_cycle:
  assumes hw: "d \<or> (gpiozero w \<and> \<not> device_fails w p \<and> (\<forall>k. \<not> write_fails w k))"
    and sig: "sigint w = None"
  shows "\<exists>w'. probe_pin al pm os cs po d p w = Some (Inr (), w')
      \<and> trace w' = trace w @
          [(clock w, Open p), (clock w + max 0 os, Close p),
           (clock w + max 0 os + max 0 (case cs of Some c \<Rightarrow> c | None \<Rightarrow> real_of_int pm / 1000),
            Open p)]
      \<and> clock w' = clock w + max 0 os
           + max 0 (case cs of Some c \<Rightarrow> c | None \<Rightarrow> real_of_int pm / 1000) + max 0 po
      \<and> sigint w' = sigint w \<and> gpiozero w' = gpiozero w
      \<and> device_fails w' = device_fails w \<and> write_fails w' = write_fails w"
proof (cases d)
  case True
  with sig show ?thesis
    by (simp add: probe_pin_def Relay_init_ok exec_simps relay_open_dry relay_close_dry
        Let_def max_def)
next
  case False
  with hw have ok: "\<And>k. write_fails w k = False" and g: "gpiozero w" "\<not> device_fails w p"
    by simp_all
  from False sig g show ?thesis
    by (simp add: probe_pin_def Relay_init_ok exec_simps relay_open_live relay_close_live ok
        Let_def max_def)
qed

lemma probe_steps:
  assumes hw: "d \<or> (gpiozero w \<and> (\<forall>p. \<not> device_fails w p) \<and> (\<forall>k. \<not> write_fails w k))"
    and sig: "sigint w = None"
  shows "\<exists>w'. steps (map (probe_pin al pm os cs po d) ps) w = Some (Inr (), w')
      \<and> trace w' = trace w @ sweep_cycles (clock w) (max 0 os)
            (max 0 (case cs of Some c \<Rightarrow> c | None \<Rightarrow> real_of_int pm / 1000)) (max 0 po) ps
      \<and> clock w' = clock w + real (length ps) * (max 0 os
           + max 0 (case cs of Some c \<Rightarrow> c | None \<Rightarrow> real_of_int pm / 1000) + max 0 po)"
  using hw sig
proof (induction ps arbitrary: w)
  case Nil
  then show ?case by (simp add: ret_def)
next
  case (Cons p ps)
  let ?cf = "max 0 (case cs of Some c \<Rightarrow> c | None \<Rightarrow> real_of_int pm / 1000)"
  from Cons.prems have "d \<or> (gpiozero w \<and> \<not> device_fails w p \<and> (\<forall>k. \<not> write_fails w k))"
    by blast
  from probe_pin_cycle [OF this Cons.prems(2), of al pm os cs po]
  obtain w1 where w1: "probe_pin al pm os cs po d p w = Some (Inr (), w1)"
    "trace w1 = trace w @ [(clock w, Open p), (clock w + max 0 os, Close p),
           (clock w + max 0 os + ?cf, Open p)]"
    "clock w1 = clock w + max 0 os + ?cf + max 0 po"
    "sigint w1 = sigint w" "gpiozero w1 = gpiozero w"
    "device_fails w1 = device_fails w" "write_fails w1 = write_fails w"
    by blast
  have hw1: "d \<or> (gpiozero w1 \<and> (\<forall>p. \<not> device_fails w1 p) \<and> (\<forall>k. \<not> write_fails w1 k))"
    using Cons.prems(1) w1 by simp
  have sig1: "sigint w1 = None" using Cons.prems(2) w1 by simp
  from Cons.IH [OF hw1 sig1]
  obtain w2 where w2: "steps (map (probe_pin al pm os cs po d) ps) w1 = Some (Inr (), w2)"
    "trace w2 = trace w1 @ sweep_cycles (clock w1) (max 0 os) ?cf (max 0 po) ps"
    "clock w2 = clock w1 + real (length ps) * (max 0 os + ?cf + max 0 po)"
    by blast
  have "steps (map (probe_pin al pm os cs po d) (p # ps)) w = Some (Inr (), w2)"
    using w1(1) w2(1) by (simp add: and_then_def)
  moreover have "trace w2 = trace w @ sweep_cycles (clock w) (max 0 os) ?cf (max 0 po) (p # ps)"
    using w1(2,3) w2(2) by simp
  moreover have "clock w2 = clock w + real (length (p # ps)) * (max 0 os + ?cf + max 0 po)"
    using w1(3) w2(3) by (simp add: algebra_simps)
  ultimately show ?case by blast
qed

lemma cmd_probe_sweep:
  assumes hw: "d \<or> (gpiozero w \<and> (\<forall>p. \<not> device_fails w p) \<and> (\<forall>k. \<not> write_fails w k))"
    and sig: "sigint w = None" and ne: "ps \<noteq> []"
  shows "\<exists>w'. cmd_probe ps al pm os cs po d w = Some (Inr (), w')
      \<and> trace w' = trace w @ sweep_cycles (clock w) (max 0 os)
            (max 0 (case cs of Some c \<Rightarrow> c | None \<Rightarrow> real_of_int pm / 1000)) (max 0 po) ps
      \<and> clock w' = clock w + real (length ps) * (max 0 os
           + max 0 (case cs of Some c \<Rightarrow> c | None \<Rightarrow> real_of_int pm / 1000) + max 0 po)"
proof -
  let ?w0 = "w\<lparr>stdout := stdout w @ [ProbingMsg]\<rparr>"
  have "d \<or> (gpiozero ?w0 \<and> (\<forall>p. \<not> device_fails ?w0 p) \<and> (\<forall>k. \<not> write_fails ?w0 k))"
    using hw by simp
  moreover have "sigint ?w0 = None" using sig by simp
  ultimately show ?thesis
    using probe_steps [of d ?w0 al pm os cs po ps] ne
    by (simp add: cmd_probe_def print_def and_then_def)
qed

lemma default_pins_parse:
  "parse_pins (filter (\<lambda>p. p \<noteq> []) (map strip (split (CHR '','') ''4,22,6,26'')))
     = Inr [4, 22, 6, 26]"
  by (simp add: split_def strip_def is_space_def parse_pin_def py_int_def py_nat_def
      is_digit_def digit_val_def)

text \<open>
  Claim C8. For the pin list \<^verbatim>\<open>4,22,6,26\<close> and the defaults of the probe subcommand
  (pulse width 300 ms, open wait 0, close wait unset, post-open wait 0.5 s), with no
  cancellation and working hardware or dry-run mode, the sweep performs for 4, 22, 6
  and 26 in this order: open, close with no time between, open 0.3 s later, and the
  next channel 0.5 s later. For every non-empty pin list with the close wait unset the
  sweep is the sequence of cycles of the specification with the pulse width as the
  close wait.
\<close>

theorem probe_sweep_default:
  "(cmd a = Probe \<and> pins a = ''4,22,6,26'' \<and> pulse_ms a = 300 \<and> open_seconds a = 0
      \<and> close_seconds a = None \<and> post_open_seconds a = 1/2 \<and> sigint w = None
      \<and> (args_dry_run a
          \<or> (gpiozero w \<and> (\<forall>p. \<not> device_fails w p) \<and> (\<forall>k. \<not> write_fails w k)))
    \<longrightarrow> (\<exists>w'. main a w = Some (Inr 0, w')
          \<and> trace w' = trace w @
              [(clock w, Open 4), (clock w, Close 4), (clock w + 3/10, Open 4),
               (clock w + 4/5, Open 22), (clock w + 4/5, Close 22), (clock w + 11/10, Open 22),
               (clock w + 8/5, Open 6), (clock w + 8/5, Close 6), (clock w + 19/10, Open 6),
               (clock w + 12/5, Open 26), (clock w + 12/5, Close 26), (clock w + 27/10, Open 26)]
          \<and> clock w' = clock w + 16/5))
   \<and> (ps \<noteq> [] \<and> sigint w = None
      \<and> (d \<or> (gpiozero w \<and> (\<forall>p. \<not> device_fails w p) \<and> (\<forall>k. \<not> write_fails w k)))
    \<longrightarrow> (\<exists>w'. cmd_probe ps al pm os None po d w = Some (Inr (), w')
          \<and> trace w' = trace w @
              sweep_cycles (clock w) (max 0 os) (max 0 (real_of_int pm / 1000)) (max 0 po) ps))"
proof (intro conjI impI)
  assume h: "cmd a = Probe \<and> pins a = ''4,22,6,26'' \<and> pulse_ms a = 300 \<and> open_seconds a = 0
      \<and> close_seconds a = None \<and> post_open_seconds a = 1/2 \<and> sigint w = None
      \<and> (args_dry_run a
          \<or> (gpiozero w \<and> (\<forall>p. \<not> device_fails w p) \<and> (\<forall>k. \<not> write_fails w k)))"
  then have "\<exists>w'. cmd_probe [4, 22, 6, 26] (args_active_low a) 300 0 None (1/2) (args_dry_run a) w
        = Some (Inr (), w')
      \<and> trace w' = trace w @ sweep_cycles (clock w) (max 0 0)
            (max 0 (case None of Some c \<Rightarrow> c | None \<Rightarrow> real_of_int 300 / 1000)) (max 0 (1/2))
            [4, 22, 6, 26]
      \<and> clock w' = clock w + real (length [4, 22, 6, 26 :: int]) * (max 0 0
           + max 0 (case None of Some c \<Rightarrow> c | None \<Rightarrow> real_of_int 300 / 1000) + max 0 (1/2))"
    by (intro cmd_probe_sweep) simp_all
  then obtain w' where w': "cmd_probe [4, 22, 6, 26] (args_active_low a) 300 0 None (1/2)
        (args_dry_run a) w = Some (Inr (), w')"
    "trace w' = trace w @ sweep_cycles (clock w) (max 0 0)
            (max 0 (case None of Some c \<Rightarrow> c | None \<Rightarrow> real_of_int 300 / 1000)) (max 0 (1/2))
            [4, 22, 6, 26]"
    "clock w' = clock w + real (length [4, 22, 6, 26 :: int]) * (max 0 0
           + max 0 (case None of Some c \<Rightarrow> c | None \<Rightarrow> real_of_int 300 / 1000) + max 0 (1/2))"
    by blast
  from h have f: "cmd a = Probe" "pins a = ''4,22,6,26''" "pulse_ms a = 300"
    "open_seconds a = 0" "close_seconds a = None" "post_open_seconds a = 1/2"
    by blast+
  have "main a w = Some (Inr 0, w')"
    using w'(1) by (simp add: main_def f default_pins_parse and_then_def ret_def)
  moreover have "trace w' = trace w @
              [(clock w, Open 4), (clock w, Close 4), (clock w + 3/10, Open 4),
               (clock w + 4/5, Open 22), (clock w + 4/5, Close 22), (clock w + 11/10, Open 22),
               (clock w + 8/5, Open 6), (clock w + 8/5, Close 6), (clock w + 19/10, Open 6),
               (clock w + 12/5, Open 26), (clock w + 12/5, Close 26), (clock w + 27/10, Open 26)]"
    using w'(2) by simp
  moreover have "clock w' = clock w + 16/5"
    using w'(3) by simp
  ultimately show "\<exists>w'. main a w = Some (Inr 0, w')
          \<and> trace w' = trace w @
              [(clock w, Open 4), (clock w, Close 4), (clock w + 3/10, Open 4),
               (clock w + 4/5, Open 22), (clock w + 4/5, Close 22), (clock w + 11/10, Open 22),
               (clock w + 8/5, Open 6), (clock w + 8/5, Close 6), (clock w + 19/10, Open 6),
               (clock w + 12/5, Open 26), (clock w + 12/5, Close 26), (clock w + 27/10, Open 26)]
          \<and> clock w' = clock w + 16/5"
    by blast
next
  assume "ps \<noteq> [] \<and> sigint w = None
      \<and> (d \<or> (gpiozero w \<and> (\<forall>p. \<not> device_fails w p) \<and> (\<forall>k. \<not> write_fails w k)))"
  then show "\<exists>w'. cmd_probe ps al pm os None po d w = Some (Inr (), w')
          \<and> trace w' = trace w @
              sweep_cycles (clock w) (max 0 os) (max 0 (real_of_int pm / 1000)) (max 0 po) ps"
    using cmd_probe_sweep [of d w ps al pm os None po] by auto
qed

text \<open>
  Witness for C8: the default probe invocation on working hardware, and a dry-run sweep
  of two pins with a pulse width of 250 ms.
\<close>

theorem probe_sweep_default_witness:
  "(\<exists>w'. main (ignite_args\<lparr>cmd := Probe, pulse_ms := 300\<rparr>) world0 = Some (Inr 0, w')
      \<and> trace w' =
          [(0, Open 4), (0, Close 4), (3/10, Open 4),
           (4/5, Open 22), (4/5, Close 22), (11/10, Open 22),
           (8/5, Open 6), (8/5, Close 6), (19/10, Open 6),
           (12/5, Open 26), (12/5, Close 26), (27/10, Open 26)]
      \<and> clock w' = 16/5)
   \<and> (\<exists>w'. cmd_probe [22, 4] False 250 (1/10) None 0 True world0 = Some (Inr (), w')
      \<and> trace w' = [(0, Open 22), (1/10, Close 22), (7/20, Open 22),
                     (7/20, Open 4), (9/20, Close 4), (7/10, Open 4)])"
proof -
  have a: "\<exists>w'. main (ignite_args\<lparr>cmd := Probe, pulse_ms := 300\<rparr>) world0 = Some (Inr 0, w')
      \<and> trace w' =
          [(0, Open 4), (0, Close 4), (3/10, Open 4),
           (4/5, Open 22), (4/5, Close 22), (11/10, Open 22),
           (8/5, Open 6), (8/5, Close 6), (19/10, Open 6),
           (12/5, Open 26), (12/5, Close 26), (27/10, Open 26)]
      \<and> clock w' = 16/5"
    using probe_sweep_default [of "ignite_args\<lparr>cmd := Probe, pulse_ms := 300\<rparr>" world0]
    by (simp add: ignite_args_def world0_def)
  have b: "\<exists>w'. cmd_probe [22, 4] False 250 (1/10) None 0 True world0 = Some (Inr (), w')
      \<and> trace w' = [(0, Open 22), (1/10, Close 22), (7/20, Open 22),
                     (7/20, Open 4), (9/20, Close 4), (7/10, Open 4)]"
    using probe_sweep_default [of _ world0 "[22, 4]" True False 250 "1/10" 0]
    by (simp add: world0_def)
  from a b show ?thesis by blast
qed

subsection \<open>The boot guard\<close>

lemma guard_disabled: "m \<le> 0 \<Longrightarrow> guard_after_boot m d w = Some (Inr (), w)"
  by (simp add: guard_after_boot_def ret_def)

lemma guard_satisfied:
  "0 < m \<Longrightarrow> uptime w = Some u \<Longrightarrow> m \<le> u
    \<Longrightarrow> guard_after_boot m d w = Some (Inr (), w\<lparr>uptime_reads := Suc (uptime_reads w)\<rparr>)"
  by (simp add: guard_after_boot_def read_uptime_seconds_def exec_simps Let_def)

lemma guard_waits:
  "0 < m \<Longrightarrow> uptime w = Some u \<Longrightarrow> u < m \<Longrightarrow> sigint w = None
    \<Longrightarrow> guard_after_boot m d w =
          Some (Inr (), w\<lparr>clock := clock w + (m - u), uptime_reads := Suc (uptime_reads w),
                           stdout := stdout w @ [BootGuardWaiting (m - u)]\<rparr>)"
  by (simp add: guard_after_boot_def read_uptime_seconds_def exec_simps Let_def)

lemma guard_unreadable:
  "0 < m \<Longrightarrow> uptime w = None
    \<Longrightarrow> guard_after_boot m d w =
          Some (Inr (), w\<lparr>uptime_reads := Suc (uptime_reads w),
                           stdout := (if d then stdout w @ [CannotReadUptime m] else stdout w)\<rparr>)"
  by (simp add: guard_after_boot_def read_uptime_seconds_def exec_simps Let_def)

text \<open>
  Claim C9 as stated fails: outside dry-run mode an unreadable uptime is passed over in
  silence; nothing is printed.
\<close>

theorem silent_unreadable_uptime_counterexample:
  "guard_after_boot 12 False (world0\<lparr>uptime := None\<rparr>)
     = Some (Inr (), world0\<lparr>uptime := None, uptime_reads := 1\<rparr>)
   \<and> stdout (world0\<lparr>uptime := None, uptime_reads := 1\<rparr>) = []"
  by (simp add: guard_after_boot_def read_uptime_seconds_def and_then_def ret_def world0_def)

text \<open>
  Claim C9, amended. A minimum uptime of zero or less returns at once without reading
  the uptime. Otherwise the uptime is read once; if it is at least the minimum the guard
  returns at once; if it is below the minimum and no cancellation comes, the guard
  prints a notice and returns when the clock has advanced by the missing time; if it is
  unreadable the guard returns at once, and prints a note in dry-run mode only.
\<close>

theorem boot_guard_enforce:
  "(m \<le> 0 \<longrightarrow> guard_after_boot m d w = Some (Inr (), w))
   \<and> (0 < m \<and> uptime w = Some u \<and> m \<le> u \<longrightarrow>
        guard_after_boot m d w = Some (Inr (), w\<lparr>uptime_reads := Suc (uptime_reads w)\<rparr>))
   \<and> (0 < m \<and> uptime w = Some u \<and> u < m \<and> sigint w = None \<longrightarrow>
        guard_after_boot m d w =
          Some (Inr (), w\<lparr>clock := clock w + (m - u), uptime_reads := Suc (uptime_reads w),
                           stdout := stdout w @ [BootGuardWaiting (m - u)]\<rparr>))
   \<and> (0 < m \<and> uptime w = None \<longrightarrow>
        guard_after_boot m d w =
          Some (Inr (), w\<lparr>uptime_reads := Suc (uptime_reads w),
                           stdout := (if d then stdout w @ [CannotReadUptime m] else stdout w)\<rparr>))"
  using guard_disabled [of m d w] guard_satisfied [of m w u d] guard_waits [of m w u d]
    guard_unreadable [of m w d]
  by blast

text \<open>
  Witness for the amended C9: a disabled guard, an uptime of 3600 s, an uptime of 5 s
  against a minimum of 12 s, and an unreadable uptime in dry-run mode.
\<close>

theorem boot_guard_enforce_witness:
  "guard_after_boot 0 False world0 = Some (Inr (), world0)
   \<and> guard_after_boot 12 False world0 = Some (Inr (), world0\<lparr>uptime_reads := 1\<rparr>)
   \<and> guard_after_boot 12 False (world0\<lparr>uptime := Some 5\<rparr>)
       = Some (Inr (), world0\<lparr>clock := 7, uptime := Some 5, uptime_reads := 1,
                                 stdout := [BootGuardWaiting 7]\<rparr>)
   \<and> guard_after_boot 12 True (world0\<lparr>uptime := None\<rparr>)
       = Some (Inr (), world0\<lparr>uptime := None, uptime_reads := 1,
                                 stdout := [CannotReadUptime 12]\<rparr>)"
proof -
  have a: "guard_after_boot 0 False world0 = Some (Inr (), world0)"
    using boot_guard_enforce [of 0 False world0] by simp
  have b: "guard_after_boot 12 False world0 = Some (Inr (), world0\<lparr>uptime_reads := 1\<rparr>)"
    using boot_guard_enforce [of 12 False world0 3600] by (simp add: world0_def)
  have c: "guard_after_boot 12 False (world0\<lparr>uptime := Some 5\<rparr>)
       = Some (Inr (), world0\<lparr>clock := 7, uptime := Some 5, uptime_reads := 1,
                                 stdout := [BootGuardWaiting 7]\<rparr>)"
    using boot_guard_enforce [of 12 False "world0\<lparr>uptime := Some 5\<rparr>" 5]
    by (simp add: world0_def)
  have d: "guard_after_boot 12 True (world0\<lparr>uptime := None\<rparr>)
       = Some (Inr (), world0\<lparr>uptime := None, uptime_reads := 1,
                                 stdout := [CannotReadUptime 12]\<rparr>)"
    using boot_guard_enforce [of 12 True "world0\<lparr>uptime := None\<rparr>"]
    by (simp add: world0_def)
  from a b c d show ?thesis by blast
qed

subsection \<open>Which commands are guarded\<close>

lemma keeps_ret: "keeps_uptime_reads (ret x)"
  by (simp add: keeps_uptime_reads_def ret_def)

lemma keeps_raise: "keeps_uptime_reads (raise e)"
  by (simp add: keeps_uptime_reads_def raise_def)

lemma keeps_print: "keeps_uptime_reads (print l)"
  by (auto simp: keeps_uptime_reads_def print_def)

lemma keeps_and_then:
  assumes "keeps_uptime_reads m" and "\<And>x. keeps_uptime_reads (f x)"
  shows "keeps_uptime_reads (and_then m f)"
  unfolding keeps_uptime_reads_def
proof (intro allI impI)
  fix w r w'
  assume run: "and_then m f w = Some (r, w')"
  show "uptime_reads w' = uptime_reads w"
  proof (cases "m w")
    case None
    with run show ?thesis by (simp add: and_then_def)
  next
    case (Some y)
    obtain x w1 where y: "y = (x, w1)" by (cases y)
    have w1: "uptime_reads w1 = uptime_reads w"
      using assms(1) Some y by (simp add: keeps_uptime_reads_def)
    show ?thesis
    proof (cases x)
      case (Inl e)
      with run Some y w1 show ?thesis by (simp add: and_then_def)
    next
      case (Inr v)
      with run Some y have "f v w1 = Some (r, w')" by (simp add: and_then_def)
      with assms(2) [of v] have "uptime_reads w' = uptime_reads w1"
        by (simp add: keeps_uptime_reads_def)
      with w1 show ?thesis by simp
    qed
  qed
qed

lemma keeps_steps:
  "(\<And>m. m \<in> set ms \<Longrightarrow> keeps_uptime_reads m) \<Longrightarrow> keeps_uptime_reads (steps ms)"
  by (induction ms) (simp_all add: keeps_ret keeps_and_then)

lemma keeps_catch:
  assumes "keeps_uptime_reads m"
  shows "keeps_uptime_reads (catch_keyboard_interrupt m)"
  unfolding keeps_uptime_reads_def
proof (intro allI impI)
  fix w r w'
  assume "catch_keyboard_interrupt m w = Some (r, w')"
  then obtain r0 where "m w = Some (r0, w')"
    by (auto simp: catch_keyboard_interrupt_def split: option.splits sum.splits exn.splits)
  with assms show "uptime_reads w' = uptime_reads w"
    by (simp add: keeps_uptime_reads_def)
qed

lemma time_sleep_uptime_reads:
  "time_sleep d w = (x, w1) \<Longrightarrow> uptime_reads w1 = uptime_reads w"
  by (auto simp: time_sleep_def split: option.splits if_splits)

lemma sleep_loop_uptime_reads: "uptime_reads (snd (sleep_loop dl w)) = uptime_reads w"
proof (induction dl w rule: sleep_loop.induct)
  case (1 dl w)
  show ?case
  proof (cases "dl - clock w \<le> 0")
    case True
    then show ?thesis by (subst sleep_loop.simps) simp
  next
    case False
    obtain x w1 where ts: "time_sleep (min 0.2 (dl - clock w)) w = (x, w1)"
      by force
    note u1 = time_sleep_uptime_reads [OF ts]
    show ?thesis
    proof (cases x)
      case (Inl e)
      with False ts u1 show ?thesis by (subst sleep_loop.simps) simp
    next
      case (Inr u)
      from "1.IH" [OF False ts [symmetric] Inr] u1
      have "uptime_reads (snd (sleep_loop dl w1)) = uptime_reads w" by simp
      with False ts Inr show ?thesis by (subst sleep_loop.simps) simp
    qed
  qed
qed

lemma keeps_sleep_with_sigint: "keeps_uptime_reads (sleep_with_sigint d)"
  unfolding keeps_uptime_reads_def sleep_with_sigint_def
  using sleep_loop_uptime_reads by (metis option.inject snd_conv)

lemma sleep_forever_uptime_reads:
  assumes "sleep_forever w = Some y"
  shows "uptime_reads (snd y) = uptime_reads w"
proof (rule sleep_forever.raw_induct
    [where P = "\<lambda>w y. uptime_reads (snd y) = uptime_reads w", OF _ assms])
  fix f :: "world \<Rightarrow> ((exn + unit) \<times> world) option" and w y
  assume IH: "\<And>x y. f x = Some y \<Longrightarrow> uptime_reads (snd y) = uptime_reads x"
    and eq: "(case time_sleep 1 w of (Inl e, w') \<Rightarrow> Some (Inl e, w') | (Inr u, w') \<Rightarrow> f w')
              = Some y"
  obtain x w1 where ts: "time_sleep 1 w = (x, w1)" by force
  note u1 = time_sleep_uptime_reads [OF ts]
  show "uptime_reads (snd y) = uptime_reads w"
  proof (cases x)
    case (Inl e)
    with eq ts u1 show ?thesis by auto
  next
    case (Inr u)
    with eq ts have "f w1 = Some y" by simp
    from IH [OF this] u1 show ?thesis by simp
  qed
qed

lemma keeps_sleep_forever: "keeps_uptime_reads sleep_forever"
  unfolding keeps_uptime_reads_def
  using sleep_forever_uptime_reads by fastforce

lemma keeps_relay_open: "keeps_uptime_reads (relay_open r)"
  by (auto simp: keeps_uptime_reads_def relay_open_def and_then_def log_op_def print_def
      device_write_def split: if_splits)

lemma keeps_relay_close: "keeps_uptime_reads (relay_close r)"
  by (auto simp: keeps_uptime_reads_def relay_close_def and_then_def log_op_def print_def
      device_write_def split: if_splits)

lemma keeps_Relay_init: "keeps_uptime_reads (Relay_init c d)"
  by (auto simp: keeps_uptime_reads_def Relay_init_def ret_def raise_def split: if_splits)

lemmas keeps_intros = keeps_ret keeps_raise keeps_print keeps_and_then keeps_steps keeps_catch
  keeps_sleep_with_sigint keeps_sleep_forever keeps_relay_open keeps_relay_close keeps_Relay_init

lemma keeps_cmd_pulse: "keeps_uptime_reads (cmd_pulse r ms)"
  unfolding cmd_pulse_def by (intro keeps_steps) (auto intro: keeps_intros)

lemma keeps_hold_wait:
  "keeps_uptime_reads (case hs of
      None \<Rightarrow> steps [print msg, catch_keyboard_interrupt sleep_forever]
    | Some h \<Rightarrow> sleep_with_sigint h)"
  by (cases hs) (auto intro!: keeps_steps intro: keeps_intros)

lemma keeps_cmd_hold: "keeps_uptime_reads (cmd_hold r hs)"
  unfolding cmd_hold_def by (intro keeps_steps) (auto intro: keeps_intros keeps_hold_wait)

lemma keeps_cmd_maintained: "keeps_uptime_reads (cmd_maintained r hs)"
  unfolding cmd_maintained_def by (intro keeps_steps) (auto intro: keeps_intros keeps_hold_wait)

lemma keeps_optional_wait:
  "keeps_uptime_reads (if c then steps [print m, sleep_with_sigint s] else ret ())"
proof (cases c)
  case True
  have "keeps_uptime_reads (steps [print m, sleep_with_sigint s])"
    by (rule keeps_steps) (auto intro: keeps_print keeps_sleep_with_sigint)
  with True show ?thesis by simp
next
  case False
  then show ?thesis by (simp add: keeps_ret)
qed

lemma keeps_probe_pin: "keeps_uptime_reads (probe_pin al pm os cs po d p)"
  unfolding probe_pin_def Let_def
proof (rule keeps_and_then [OF keeps_Relay_init])
  fix relay
  show "keeps_uptime_reads
     (steps [relay_open relay,
             if 0 < os then steps [print (ProbeOpenMsg p os), sleep_with_sigint os] else ret (),
             relay_close relay,
             print (ProbeCloseMsg p (case cs of None \<Rightarrow> real_of_int pm / 1000 | Some c \<Rightarrow> c)),
             sleep_with_sigint (case cs of None \<Rightarrow> real_of_int pm / 1000 | Some c \<Rightarrow> c),
             relay_open relay,
             if 0 < po then steps [print (ProbeOpenMsg p po), sleep_with_sigint po] else ret ()])"
    by (rule keeps_steps)
       (auto intro: keeps_relay_open keeps_relay_close keeps_print keeps_sleep_with_sigint
          keeps_optional_wait simp del: steps.simps)
qed

lemma keeps_cmd_probe: "keeps_uptime_reads (cmd_probe ps al pm os cs po d)"
proof (cases "ps = []")
  case True
  then show ?thesis by (simp add: cmd_probe_def keeps_raise)
next
  case False
  have "keeps_uptime_reads
     (steps (print ProbingMsg # map (probe_pin al pm os cs po d) ps))"
    by (rule keeps_steps) (auto intro: keeps_print keeps_probe_pin)
  with False show ?thesis by (simp add: cmd_probe_def)
qed

lemma keeps_dispatch: "keeps_uptime_reads (dispatch a m h)"
  unfolding dispatch_def
  by (auto intro!: keeps_and_then keeps_ret keeps_raise keeps_relay_open keeps_cmd_pulse
      keeps_cmd_hold keeps_cmd_maintained split: option.splits)

lemma keeps_make_relay: "keeps_uptime_reads (make_relay n msg sel a)"
  unfolding make_relay_def
  by (auto intro!: keeps_and_then keeps_ret keeps_raise keeps_Relay_init split: option.splits)

lemma keeps_open_if_present: "keeps_uptime_reads (open_if_present r)"
  unfolding open_if_present_def
  by (auto intro!: keeps_ret keeps_relay_open split: option.splits)

lemma sleep_with_sigint_reads:
  "sleep_with_sigint d w = Some (r, w') \<Longrightarrow> uptime_reads w' = uptime_reads w"
  using keeps_sleep_with_sigint [of d] unfolding keeps_uptime_reads_def by blast

lemma guard_reads_once:
  assumes "0 < g" and run: "guard_after_boot g d w = Some (r, w')"
  shows "uptime_reads w' = Suc (uptime_reads w)"
  using assms
  by (auto simp: guard_after_boot_def and_then_def read_uptime_seconds_def Let_def ret_def
      print_def split: option.splits if_splits sum.splits dest!: sleep_with_sigint_reads)

lemma keeps_main_unguarded:
  assumes "cmd a \<notin> {Ignite, On, Off}"
  shows "keeps_uptime_reads (main a)"
proof -
  have d: "keeps_uptime_reads (and_then m (\<lambda>_. ret (0::int)))" if "keeps_uptime_reads m"
    for m :: "unit prog"
    using that by (intro keeps_and_then keeps_ret)
  show ?thesis
  proof (cases "cmd a = ListRelays")
    case True
    then show ?thesis by (simp add: main_def d keeps_print)
  next
    case lr: False
    show ?thesis
    proof (cases "cmd a = Probe")
      case True
      then show ?thesis
        by (auto simp: main_def keeps_raise intro!: d keeps_cmd_probe split: sum.splits)
    next
      case False
      with lr assms show ?thesis
        by (auto simp: main_def keeps_raise
            intro!: keeps_and_then keeps_make_relay keeps_open_if_present keeps_ret keeps_dispatch
            split: sum.splits)
    qed
  qed
qed

lemma make_main_relay:
  assumes "args_dry_run a \<or> (gpiozero w \<and> \<not> device_fails w p)"
  shows "make_relay True msg (Some p) a w
    = Some (Inr (Some \<lparr>cfg = \<lparr>pin = p, active_low = args_active_low a\<rparr>,
                        dry_run = args_dry_run a\<rparr>), w)"
  using assms by (simp add: make_relay_def and_then_def Relay_init_ok ret_def)

lemma and_then_ret: "and_then (ret x) f = f x"
  by (rule ext) (simp add: and_then_def ret_def)

lemma main_with_main_relay:
  assumes c: "cmd a \<in> {Ignite, On, Off}"
    and mp: "select_pin (main_relay a) (pin_main a) = Inr (Some p)"
    and hp: "select_pin (high_relay a) (pin_high a) = Inr hp"
    and hw: "args_dry_run a \<or> (gpiozero w \<and> \<not> device_fails w p)"
  shows "main a w =
     and_then (relay_open \<lparr>cfg = \<lparr>pin = p, active_low = args_active_low a\<rparr>,
                            dry_run = args_dry_run a\<rparr>)
       (\<lambda>_. and_then (guard_after_boot (boot_guard_seconds a) (args_dry_run a))
          (\<lambda>_. dispatch a (Some \<lparr>cfg = \<lparr>pin = p, active_low = args_active_low a\<rparr>,
                                   dry_run = args_dry_run a\<rparr>) None)) w"
proof -
  let ?r = "\<lparr>cfg = \<lparr>pin = p, active_low = args_active_low a\<rparr>, dry_run = args_dry_run a\<rparr>"
  have n: "cmd a \<noteq> ListRelays" "cmd a \<noteq> Probe" "cmd a \<notin> {High, Low, PulseHigh}"
    using c by auto
  have mk_high: "make_relay False msg hp a = ret None" for msg
    by (simp add: make_relay_def)
  have mk_main: "and_then (make_relay True msg (Some p) a) f w = f (Some ?r) w"
    for msg and f :: "Relay option \<Rightarrow> int prog"
    using make_main_relay [OF hw] by (simp add: and_then_def)
  show ?thesis
    using c n mp hp
    by (simp add: main_def mk_main mk_high and_then_ret open_if_present_def)
qed

lemma main_guarded_reads:
  assumes c: "cmd a \<in> {Ignite, On, Off}" and g: "0 < boot_guard_seconds a"
    and mp: "select_pin (main_relay a) (pin_main a) = Inr (Some p)"
    and hp: "select_pin (high_relay a) (pin_high a) = Inr hp"
    and hw: "args_dry_run a \<or> (gpiozero w \<and> \<not> device_fails w p \<and> \<not> write_fails w (writes w))"
    and run: "main a w = Some (res, w')"
  shows "uptime_reads w' = Suc (uptime_reads w)"
proof -
  let ?r = "\<lparr>cfg = \<lparr>pin = p, active_low = args_active_low a\<rparr>, dry_run = args_dry_run a\<rparr>"
  from hw have hw': "args_dry_run a \<or> (gpiozero w \<and> \<not> device_fails w p)" by blast
  note m = main_with_main_relay [OF c mp hp hw']
  obtain w1 where o: "relay_open ?r w = Some (Inr (), w1)"
    and u1: "uptime_reads w1 = uptime_reads w"
    using hw by (cases "args_dry_run a") (auto simp: relay_open_dry relay_open_live)
  from run m o have run1: "and_then (guard_after_boot (boot_guard_seconds a) (args_dry_run a))
          (\<lambda>_. dispatch a (Some ?r) None) w1 = Some (res, w')"
    by (simp add: and_then_def)
  show ?thesis
  proof (cases "guard_after_boot (boot_guard_seconds a) (args_dry_run a) w1")
    case None
    with run1 show ?thesis by (simp add: and_then_def)
  next
    case (Some y)
    obtain x w2 where y: "y = (x, w2)" by (cases y)
    from guard_reads_once [OF g] Some y have u2: "uptime_reads w2 = Suc (uptime_reads w1)"
      by simp
    show ?thesis
    proof (cases x)
      case (Inl e)
      with run1 Some y u1 u2 show ?thesis by (simp add: and_then_def)
    next
      case (Inr v)
      with run1 Some y have "dispatch a (Some ?r) None w2 = Some (res, w')"
        by (simp add: and_then_def)
      with keeps_dispatch [of a "Some ?r" None] have "uptime_reads w' = uptime_reads w2"
        unfolding keeps_uptime_reads_def by blast
      with u1 u2 show ?thesis by simp
    qed
  qed
qed

lemma off_waits_for_guard:
  assumes c: "cmd a = Off" and g: "0 < boot_guard_seconds a"
    and mp: "select_pin (main_relay a) (pin_main a) = Inr (Some p)"
    and hp: "select_pin (high_relay a) (pin_high a) = Inr hp"
    and hw: "args_dry_run a \<or> (gpiozero w \<and> \<not> device_fails w p \<and> (\<forall>k. \<not> write_fails w k))"
    and up: "uptime w = Some u" "u < boot_guard_seconds a" and sig: "sigint w = None"
  shows "\<exists>w'. main a w = Some (Inr 0, w')
     \<and> trace w' = trace w @ [(clock w, Open p), (clock w + (boot_guard_seconds a - u), Open p)]"
proof -
  from hw have hw': "args_dry_run a \<or> (gpiozero w \<and> \<not> device_fails w p)" by blast
  have c': "cmd a \<in> {Ignite, On, Off}" using c by simp
  note m = main_with_main_relay [OF c' mp hp hw']
  show ?thesis
  proof (cases "args_dry_run a")
    case True
    with c g up sig show ?thesis
      unfolding m
      by (simp add: and_then_def relay_open_dry guard_waits dispatch_def ret_def)
  next
    case False
    with hw have ok: "\<And>k. write_fails w k = False" by simp
    from False c g up sig show ?thesis
      unfolding m
      by (simp add: and_then_def relay_open_live guard_waits dispatch_def ret_def ok)
  qed
qed

lemmas run_simps = run_def observe_def main_def dispatch_def make_relay_def open_if_present_def
  select_pin_def truthy_def resolver_defs Relay_init_def relay_open_def relay_close_def
  log_op_def device_write_def guard_after_boot_def read_uptime_seconds_def exec_simps
  cmd_pulse_def cmd_hold_def cmd_maintained_def world0_def ignite_args_def

lemma low_dry_run:
  "main (ignite_args\<lparr>cmd := Low, high_relay := Some ''high_flame'', args_dry_run := True\<rparr>) world0
     = Some (Inr 0, world0\<lparr>trace := [(0, Open 22), (0, Open 22)],
                              stdout := [DryRunOpen 22, DryRunOpen 22]\<rparr>)"
  by (simp add: run_simps)

lemma off_live_run:
  "main (ignite_args\<lparr>cmd := Off\<rparr>) (world0\<lparr>uptime := Some 5\<rparr>)
     = Some (Inr 0, world0\<lparr>clock := 7, uptime := Some 5, uptime_reads := 1, writes := 2,
                              trace := [(0, Open 4), (7, Open 4)],
                              stdout := [BootGuardWaiting 7]\<rparr>)"
  by (simp add: run_simps)

subsection \<open>Hardware write failures\<close>

lemma pulse_write_failure:
  assumes live: "\<not> dry_run r" and sig: "sigint w = None" and k: "k < 3"
    and bad: "write_fails w (writes w + k)"
    and good: "\<forall>j<k. \<not> write_fails w (writes w + j)"
  shows "\<exists>w'. cmd_pulse r ms w = Some (Inl DeviceError, w')
      \<and> ops w' = ops w @ take (Suc k) [Open (pin (cfg r)), Close (pin (cfg r)), Open (pin (cfg r))]
      \<and> writes w' = writes w + Suc k"
proof -
  from k consider "k = 0" | "k = 1" | "k = 2" by linarith
  then show ?thesis
  proof cases
    case 1
    with bad live show ?thesis
      by (simp add: cmd_pulse_def exec_simps relay_open_live ops_def)
  next
    case 2
    with good have "\<not> write_fails w (writes w)" by simp
    with 2 bad live show ?thesis
      by (simp add: cmd_pulse_def exec_simps relay_open_live relay_close_live ops_def)
  next
    case 3
    from good [rule_format, of 0] good [rule_format, of 1] 3
    have "\<not> write_fails w (writes w)" "\<not> write_fails w (Suc (writes w))"
      by simp_all
    with 3 bad live sig show ?thesis
      by (simp add: cmd_pulse_def exec_simps relay_open_live relay_close_live ops_def)
  qed
qed

lemma hold_write_failure:
  assumes live: "\<not> dry_run r" and sig: "sigint w = None"
    and k: "k < 2 \<or> (k = 2 \<and> hs \<noteq> None)"
    and bad: "write_fails w (writes w + k)"
    and good: "\<forall>j<k. \<not> write_fails w (writes w + j)"
  shows "\<exists>w'. cmd_hold r hs w = Some (Inl DeviceError, w')
      \<and> ops w' = ops w @ take (Suc k) [Open (pin (cfg r)), Close (pin (cfg r)), Open (pin (cfg r))]
      \<and> writes w' = writes w + Suc k"
proof -
  from k consider "k = 0" | "k = 1" | "k = 2" "hs \<noteq> None" by linarith
  then show ?thesis
  proof cases
    case 1
    with bad live show ?thesis
      by (simp add: cmd_hold_def exec_simps relay_open_live ops_def)
  next
    case 2
    with good have "\<not> write_fails w (writes w)" by simp
    with 2 bad live show ?thesis
      by (simp add: cmd_hold_def exec_simps relay_open_live relay_close_live ops_def)
  next
    case 3
    then obtain h where h: "hs = Some h" by blast
    from good [rule_format, of 0] good [rule_format, of 1] 3
    have "\<not> write_fails w (writes w)" "\<not> write_fails w (Suc (writes w))"
      by simp_all
    with 3 h bad live sig show ?thesis
      by (simp add: cmd_hold_def exec_simps relay_open_live relay_close_live ops_def)
  qed
qed

lemma run_device_error:
  "main a w = Some (Inl DeviceError, w') \<Longrightarrow> run a w = Some (1, w')"
  by (simp add: run_def)

subsection \<open>Cancellation\<close>

lemma wait_interrupted:
  assumes "sigint w = Some t" "clock w \<le> t" "t < clock w + d"
  shows "sleep_with_sigint d w = Some (Inl KeyboardInterrupt, w\<lparr>clock := t, sigint := None\<rparr>)"
proof -
  from assms have "0 < d" by simp
  from sleep_with_sigint_interrupted [OF assms(1) this assms(3)] assms(2)
  show ?thesis by (simp add: max_def)
qed

lemma run_interrupted:
  "main a w = Some (Inl KeyboardInterrupt, w')
    \<Longrightarrow> run a w = Some (130, w'\<lparr>stdout := stdout w' @ [Interrupted]\<rparr>)"
  by (simp add: run_def)

lemma hold_indefinite:
  assumes hw: "dry_run r \<or> (\<forall>k. \<not> write_fails w k)"
    and sig: "sigint w = Some t" "clock w \<le> t"
  shows "\<exists>w'. cmd_hold r None w = Some (Inr (), w')
      \<and> trace w' = trace w @
          [(clock w, Open (pin (cfg r))), (clock w, Close (pin (cfg r))), (t, Open (pin (cfg r)))]
      \<and> clock w' = t"
proof (cases "dry_run r")
  case True
  with sig show ?thesis
    by (simp add: cmd_hold_def exec_simps relay_open_dry relay_close_dry
        sleep_forever_interrupted max_def)
next
  case False
  with hw have ok: "\<And>k. write_fails w k = False" by simp
  from False sig show ?thesis
    by (simp add: cmd_hold_def exec_simps relay_open_live relay_close_live ok
        sleep_forever_interrupted max_def)
qed

lemma sleep_with_sigint_eq:
  "sleep_with_sigint d w =
    (case sigint w of
       None \<Rightarrow> Some (Inr (), w\<lparr>clock := clock w + max 0 d\<rparr>)
     | Some t \<Rightarrow>
         if 0 < d \<and> t < clock w + d
         then Some (Inl KeyboardInterrupt, w\<lparr>clock := max (clock w) t, sigint := None\<rparr>)
         else Some (Inr (), w\<lparr>clock := clock w + max 0 d\<rparr>))"
proof (cases "sigint w")
  case None
  then show ?thesis by (simp add: sleep_with_sigint_returns)
next
  case (Some t)
  show ?thesis
  proof (cases "0 < d")
    case True
    with Some show ?thesis
      by (simp add: sleep_with_sigint_returns sleep_with_sigint_interrupted)
  next
    case False
    then have "sleep_loop (clock w) w = (Inr (), w)"
      by (subst sleep_loop.simps) simp
    with False Some show ?thesis by (simp add: sleep_with_sigint_def max_def)
  qed
qed

lemma sleep_forever_eq:
  "sleep_forever w =
    (case sigint w of
       None \<Rightarrow> None
     | Some t \<Rightarrow> Some (Inl KeyboardInterrupt, w\<lparr>clock := max (clock w) t, sigint := None\<rparr>))"
  by (cases "sigint w") (simp_all add: sleep_forever_diverges sleep_forever_interrupted)

lemmas interrupt_simps = sleep_with_sigint_eq sleep_forever_eq

text \<open>
  Claim C1 at a cancelled pulse: \<^verbatim>\<open>ignite --main-relay low_flame\<close> on working hardware,
  with SIGINT arriving 0.1 s into the 0.25 s pulse. The process exits with status 130
  at 0.1 s and its last relay operation is the close.
\<close>

theorem cancelled_pulse_leaves_relay_closed:
  "observe (run ignite_args (world0\<lparr>sigint := Some (1/10)\<rparr>))
     = Some (130, 1/10, [(0, Open 4), (0, Open 4), (0, Close 4)])"
  by (simp add: run_simps interrupt_simps del: sleep_with_sigint_returns)

subsection \<open>Whole invocations\<close>

text \<open>
  An invocation of a relay command resolves both relay options, makes the handle of the
  relay that the command drives, opens it, applies the boot guard where the command is
  guarded, and runs the pattern of the command.
\<close>

lemma relay_pin_cases:
  assumes "relay_pin a = Some p"
  shows "(cmd a \<in> {Ignite, On, Off}
            \<and> select_pin (main_relay a) (pin_main a) = Inr (Some p)
            \<and> (\<exists>hp. select_pin (high_relay a) (pin_high a) = Inr hp))
         \<or> (cmd a \<in> {High, Low, PulseHigh}
            \<and> select_pin (high_relay a) (pin_high a) = Inr (Some p)
            \<and> (\<exists>mp. select_pin (main_relay a) (pin_main a) = Inr mp))"
  using assms by (auto simp: relay_pin_def split: sum.splits if_splits)

lemma main_with_high_relay:
  assumes c: "cmd a \<in> {High, Low, PulseHigh}"
    and mp: "select_pin (main_relay a) (pin_main a) = Inr mp"
    and hp: "select_pin (high_relay a) (pin_high a) = Inr (Some p)"
    and hw: "args_dry_run a \<or> (gpiozero w \<and> \<not> device_fails w p)"
  shows "main a w =
     and_then (relay_open (command_relay a p))
       (\<lambda>_. dispatch a None (Some (command_relay a p))) w"
proof -
  have n: "cmd a \<noteq> ListRelays" "cmd a \<noteq> Probe" "cmd a \<notin> {Ignite, On, Off}"
    using c by auto
  have mk_main: "make_relay False msg mp a = ret None" for msg
    by (simp add: make_relay_def)
  have mk_high: "and_then (make_relay True msg (Some p) a) f w = f (Some (command_relay a p)) w"
    for msg and f :: "Relay option \<Rightarrow> int prog"
    using make_main_relay [OF hw] by (simp add: and_then_def command_relay_def)
  show ?thesis
    using c n mp hp
    by (simp add: main_def mk_main mk_high and_then_ret open_if_present_def)
qed

lemma dispatch_main_pattern:
  "cmd a \<in> {Ignite, On, Off} \<Longrightarrow>
     dispatch a (Some r) None = and_then (pattern_of a r) (\<lambda>_. ret 0)"
  by (auto simp: dispatch_def pattern_of_def)

lemma dispatch_high_pattern:
  "cmd a \<in> {High, Low, PulseHigh} \<Longrightarrow>
     dispatch a None (Some r) = and_then (pattern_of a r) (\<lambda>_. ret 0)"
  by (auto simp: dispatch_def pattern_of_def)

lemma main_as_pattern:
  assumes rp: "relay_pin a = Some p"
    and hw: "args_dry_run a \<or> (gpiozero w \<and> \<not> device_fails w p)"
  shows "main a w =
     and_then (relay_open (command_relay a p))
       (\<lambda>_. and_then (guard_after_boot
                        (if cmd a \<in> {Ignite, On, Off} then boot_guard_seconds a else 0)
                        (args_dry_run a))
          (\<lambda>_. and_then (pattern_of a (command_relay a p)) (\<lambda>_. ret 0))) w"
proof -
  have g0: "guard_after_boot 0 d = ret ()" for d
    by (rule ext) (simp add: guard_after_boot_def)
  from relay_pin_cases [OF rp] show ?thesis
  proof (elim disjE conjE exE)
    fix hp
    assume c: "cmd a \<in> {Ignite, On, Off}"
      and "select_pin (main_relay a) (pin_main a) = Inr (Some p)"
      and "select_pin (high_relay a) (pin_high a) = Inr hp"
    from main_with_main_relay [OF this hw] c show ?thesis
      by (simp add: dispatch_main_pattern command_relay_def)
  next
    fix mp
    assume c: "cmd a \<in> {High, Low, PulseHigh}"
      and hp: "select_pin (high_relay a) (pin_high a) = Inr (Some p)"
      and mp: "select_pin (main_relay a) (pin_main a) = Inr mp"
    have n: "cmd a \<notin> {Ignite, On, Off}" using c by auto
    from main_with_high_relay [OF c mp hp hw] n c show ?thesis
      by (simp add: dispatch_high_pattern g0 and_then_ret)
  qed
qed

lemma main_probe:
  "cmd a = Probe \<Longrightarrow> probe_pins a = Inr ps
    \<Longrightarrow> main a w = and_then (cmd_probe ps (args_active_low a) (pulse_ms a) (open_seconds a)
           (close_seconds a) (post_open_seconds a) (args_dry_run a)) (\<lambda>_. ret 0) w"
  by (simp add: main_def probe_pins_def)

lemma run_returns: "main a w = Some (Inr status, w') \<Longrightarrow> run a w = Some (status, w')"
  by (simp add: run_def)

lemma relay_open_ok:
  assumes "dry_run r \<or> (\<forall>k. \<not> write_fails w k)"
  shows "\<exists>w1. relay_open r w = Some (Inr (), w1)
     \<and> trace w1 = trace w @ [(clock w, Open (pin (cfg r)))]
     \<and> clock w1 = clock w \<and> sigint w1 = sigint w \<and> uptime w1 = uptime w
     \<and> write_fails w1 = write_fails w"
  using assms by (cases "dry_run r") (auto simp: relay_open_dry relay_open_live)

lemma guard_blocks:
  assumes "\<forall>t. sigint w = Some t \<longrightarrow>
      clock w + (if 0 < g then (case uptime w of None \<Rightarrow> 0 | Some u \<Rightarrow> max 0 (g - u)) else 0) \<le> t"
  shows "\<exists>w2. guard_after_boot g d w = Some (Inr (), w2)
     \<and> clock w2 = clock w
         + (if 0 < g then (case uptime w of None \<Rightarrow> 0 | Some u \<Rightarrow> max 0 (g - u)) else 0)
     \<and> trace w2 = trace w \<and> sigint w2 = sigint w
     \<and> write_fails w2 = write_fails w \<and> writes w2 = writes w"
proof (cases "0 < g")
  case False
  then show ?thesis by (simp add: guard_disabled)
next
  case True
  show ?thesis
  proof (cases "uptime w")
    case None
    with True show ?thesis by (simp add: guard_unreadable)
  next
    case (Some u)
    show ?thesis
    proof (cases "g \<le> u")
      case le: True
      with True Some show ?thesis by (simp add: guard_satisfied)
    next
      case False
      with True Some assms
      have "case sigint w of None \<Rightarrow> True | Some t \<Rightarrow> clock w + max 0 (g - u) \<le> t"
        by (cases "sigint w") (auto simp: max_def)
      with True Some False show ?thesis
        by (cases "sigint w")
           (simp_all add: guard_after_boot_def read_uptime_seconds_def exec_simps Let_def max_def)
    qed
  qed
qed

lemma guard_cancelled:
  assumes "sigint w = Some t" "clock w \<le> t"
    and "t < clock w + (if 0 < g then (case uptime w of None \<Rightarrow> 0 | Some u \<Rightarrow> max 0 (g - u)) else 0)"
  shows "\<exists>w2. guard_after_boot g d w = Some (Inl KeyboardInterrupt, w2) \<and> clock w2 = t"
proof -
  from assms obtain u where u: "0 < g" "uptime w = Some u" "u < g" "t < clock w + (g - u)"
    by (cases "uptime w") (auto split: if_splits simp: max_def)
  let ?w1 = "w\<lparr>uptime_reads := Suc (uptime_reads w)\<rparr>\<lparr>stdout := stdout w @ [BootGuardWaiting (g - u)]\<rparr>"
  have "sleep_with_sigint (g - u) ?w1
      = Some (Inl KeyboardInterrupt, ?w1\<lparr>clock := t, sigint := None\<rparr>)"
    using assms(1,2) u(4) by (intro wait_interrupted) simp_all
  with u show ?thesis
    by (simp add: guard_after_boot_def read_uptime_seconds_def and_then_def print_def Let_def)
qed

text \<open>The patterns when no cancellation arrives before their last wait is over.\<close>

lemma relay_pin_command:
  "relay_pin a = Some p \<Longrightarrow> cmd a \<in> {Ignite, On, Off, High, Low, PulseHigh}"
  using relay_pin_cases [of a p] by auto

lemma no_cancel_case:
  "(\<forall>t. sigint w = Some t \<longrightarrow> x \<le> t) \<longleftrightarrow> (case sigint w of None \<Rightarrow> True | Some t \<Rightarrow> x \<le> t)"
  by (cases "sigint w") auto

lemma pulse_timed:
  assumes hw: "dry_run r \<or> (\<forall>k. \<not> write_fails w k)"
    and sig: "\<forall>t. sigint w = Some t \<longrightarrow> clock w + max 0 (real_of_int pm / 1000) \<le> t"
  shows "\<exists>w'. cmd_pulse r pm w = Some (Inr (), w')
      \<and> trace w' = trace w @
          [(clock w, Open (pin (cfg r))), (clock w, Close (pin (cfg r))),
           (clock w + max 0 (real_of_int pm / 1000), Open (pin (cfg r)))]
      \<and> clock w' = clock w + max 0 (real_of_int pm / 1000)"
proof (cases "dry_run r")
  case True
  with sig show ?thesis
    by (cases "sigint w")
       (simp_all add: cmd_pulse_def exec_simps relay_open_dry relay_close_dry)
next
  case False
  with hw have ok: "\<And>k. write_fails w k = False" by simp
  from False sig show ?thesis
    by (cases "sigint w")
       (simp_all add: cmd_pulse_def exec_simps relay_open_live relay_close_live ok)
qed

lemma hold_timed:
  assumes hw: "dry_run r \<or> (\<forall>k. \<not> write_fails w k)"
    and sig: "\<forall>t. sigint w = Some t \<longrightarrow> clock w + max 0 h \<le> t"
  shows "\<exists>w'. cmd_hold r (Some h) w = Some (Inr (), w')
      \<and> trace w' = trace w @
          [(clock w, Open (pin (cfg r))), (clock w, Close (pin (cfg r))),
           (clock w + max 0 h, Open (pin (cfg r)))]
      \<and> clock w' = clock w + max 0 h"
proof (cases "dry_run r")
  case True
  with sig show ?thesis
    by (cases "sigint w")
       (simp_all add: cmd_hold_def exec_simps relay_open_dry relay_close_dry)
next
  case False
  with hw have ok: "\<And>k. write_fails w k = False" by simp
  from False sig show ?thesis
    by (cases "sigint w")
       (simp_all add: cmd_hold_def exec_simps relay_open_live relay_close_live ok)
qed

lemma pattern_completes:
  assumes rp: "relay_pin a = Some p"
    and hw: "dry_run r \<or> (\<forall>k. \<not> write_fails w k)" and r: "pin (cfg r) = p"
    and timed: "\<not> holds_indefinitely a"
    and sig: "\<forall>t. sigint w = Some t \<longrightarrow> clock w + timed_span a \<le> t"
  shows "\<exists>w'. pattern_of a r w = Some (Inr (), w')
     \<and> trace w' = trace w @ pattern_trace a p (clock w) e
     \<and> clock w' = clock w + timed_span a"
proof -
  from relay_pin_command [OF rp]
  consider (maintained) "cmd a = Ignite" "maintained a"
    | (pulse) "cmd a = Ignite \<and> \<not> maintained a \<or> cmd a = PulseHigh"
    | (hold) "cmd a = On \<or> cmd a = High"
    | (opens) "cmd a = Off \<or> cmd a = Low"
    by auto
  then show ?thesis
  proof cases
    case maintained
    with timed obtain h where h: "hold_seconds a = Some h"
      by (auto simp: holds_indefinitely_def)
    from maintained h sig have "\<forall>t. sigint w = Some t \<longrightarrow> clock w + 3/2 + max 0 h \<le> t"
      by (simp add: timed_span_def add.assoc)
    from maintained_timed [OF hw this] maintained h r show ?thesis
      by (auto simp: pattern_of_def pattern_trace_def timed_span_def add.assoc)
  next
    case pulse
    with sig have "\<forall>t. sigint w = Some t \<longrightarrow> clock w + max 0 (real_of_int (pulse_ms a) / 1000) \<le> t"
      by (auto simp: timed_span_def)
    from pulse_timed [OF hw this] pulse r show ?thesis
      by (auto simp: pattern_of_def pattern_trace_def timed_span_def)
  next
    case hold
    with timed obtain h where h: "hold_seconds a = Some h"
      by (auto simp: holds_indefinitely_def)
    from hold h sig have "\<forall>t. sigint w = Some t \<longrightarrow> clock w + max 0 h \<le> t"
      by (auto simp: timed_span_def)
    from hold_timed [OF hw this] hold h r show ?thesis
      by (auto simp: pattern_of_def pattern_trace_def timed_span_def)
  next
    case opens
    from relay_open_ok [OF hw] opens r show ?thesis
      by (auto simp: pattern_of_def pattern_trace_def timed_span_def)
  qed
qed

lemma pattern_released:
  assumes rp: "relay_pin a = Some p"
    and hw: "dry_run r \<or> (\<forall>k. \<not> write_fails w k)" and r: "pin (cfg r) = p"
    and ind: "holds_indefinitely a"
    and sig: "sigint w = Some t" "clock w + timed_span a \<le> t"
  shows "\<exists>w'. pattern_of a r w = Some (Inr (), w')
     \<and> trace w' = trace w @ pattern_trace a p (clock w) t
     \<and> clock w' = t"
proof -
  from ind consider (maintained) "cmd a = Ignite" "maintained a" "hold_seconds a = None"
    | (hold) "cmd a = On \<or> cmd a = High" "hold_seconds a = None"
    by (auto simp: holds_indefinitely_def)
  then show ?thesis
  proof cases
    case maintained
    with sig have "clock w + 3/2 \<le> t" by (simp add: timed_span_def)
    from maintained_indefinite [OF hw sig(1) this] maintained r show ?thesis
      by (simp add: pattern_of_def pattern_trace_def)
  next
    case hold
    with sig have "clock w \<le> t" by (auto simp: timed_span_def)
    from hold_indefinite [OF hw sig(1) this] hold r show ?thesis
      by (auto simp: pattern_of_def pattern_trace_def)
  qed
qed

text \<open>The patterns when the cancellation arrives during one of their timed waits.\<close>

lemmas cancel_simps = steps.simps and_then_def ret_def print_def catch_keyboard_interrupt_def
  sleep_with_sigint_eq sleep_forever_eq max_def

lemma pulse_cancelled:
  assumes hw: "dry_run r \<or> (\<forall>k. \<not> write_fails w k)"
    and sig: "sigint w = Some t" "clock w \<le> t" "t < clock w + real_of_int pm / 1000"
  shows "\<exists>w'. cmd_pulse r pm w = Some (Inl KeyboardInterrupt, w') \<and> clock w' = t"
proof (cases "dry_run r")
  case True
  with sig show ?thesis
    by (simp add: cmd_pulse_def cancel_simps relay_open_dry relay_close_dry)
next
  case False
  with hw have ok: "\<And>k. write_fails w k = False" by simp
  from False sig show ?thesis
    by (simp add: cmd_pulse_def cancel_simps relay_open_live relay_close_live ok)
qed

lemma hold_cancelled:
  assumes hw: "dry_run r \<or> (\<forall>k. \<not> write_fails w k)"
    and sig: "sigint w = Some t" "clock w \<le> t" "t < clock w + h"
  shows "\<exists>w'. cmd_hold r (Some h) w = Some (Inl KeyboardInterrupt, w') \<and> clock w' = t"
proof (cases "dry_run r")
  case True
  with sig show ?thesis
    by (simp add: cmd_hold_def cancel_simps relay_open_dry relay_close_dry)
next
  case False
  with hw have ok: "\<And>k. write_fails w k = False" by simp
  from False sig show ?thesis
    by (simp add: cmd_hold_def cancel_simps relay_open_live relay_close_live ok)
qed

lemma maintained_cancelled:
  assumes hw: "dry_run r \<or> (\<forall>k. \<not> write_fails w k)"
    and sig: "sigint w = Some t" "clock w \<le> t"
    and before: "t < clock w + 3/2 \<or> (\<exists>h. hs = Some h \<and> t < clock w + 3/2 + h)"
  shows "\<exists>w'. cmd_maintained r hs w = Some (Inl KeyboardInterrupt, w') \<and> clock w' = t"
proof -
  from before consider (a) "t < clock w + 1"
    | (b) "clock w + 1 \<le> t" "t < clock w + 5/4"
    | (c) "clock w + 5/4 \<le> t" "t < clock w + 3/2"
    | (d) h where "clock w + 3/2 \<le> t" "hs = Some h" "t < clock w + 3/2 + h"
    by fastforce
  then show ?thesis
  proof cases
    case a
    show ?thesis
    proof (cases "dry_run r")
      case True
      with sig a show ?thesis
        by (simp add: cmd_maintained_def cancel_simps relay_open_dry relay_close_dry)
    next
      case False
      with hw have ok: "\<And>k. write_fails w k = False" by simp
      from False sig a show ?thesis
        by (simp add: cmd_maintained_def cancel_simps relay_open_live relay_close_live ok)
    qed
  next
    case b
    show ?thesis
    proof (cases "dry_run r")
      case True
      with sig b show ?thesis
        by (simp add: cmd_maintained_def cancel_simps relay_open_dry relay_close_dry)
    next
      case False
      with hw have ok: "\<And>k. write_fails w k = False" by simp
      from False sig b show ?thesis
        by (simp add: cmd_maintained_def cancel_simps relay_open_live relay_close_live ok)
    qed
  next
    case c
    show ?thesis
    proof (cases "dry_run r")
      case True
      with sig c show ?thesis
        by (simp add: cmd_maintained_def cancel_simps relay_open_dry relay_close_dry)
    next
      case False
      with hw have ok: "\<And>k. write_fails w k = False" by simp
      from False sig c show ?thesis
        by (simp add: cmd_maintained_def cancel_simps relay_open_live relay_close_live ok)
    qed
  next
    case d
    show ?thesis
    proof (cases "dry_run r")
      case True
      with sig d show ?thesis
        by (simp add: cmd_maintained_def cancel_simps relay_open_dry relay_close_dry)
    next
      case False
      with hw have ok: "\<And>k. write_fails w k = False" by simp
      from False sig d show ?thesis
        by (simp add: cmd_maintained_def cancel_simps relay_open_live relay_close_live ok)
    qed
  qed
qed

lemma pattern_cancelled:
  assumes rp: "relay_pin a = Some p"
    and hw: "dry_run r \<or> (\<forall>k. \<not> write_fails w k)"
    and sig: "sigint w = Some t" "clock w \<le> t" "t < clock w + timed_span a"
  shows "\<exists>w'. pattern_of a r w = Some (Inl KeyboardInterrupt, w') \<and> clock w' = t"
proof -
  from relay_pin_command [OF rp]
  consider (maintained) "cmd a = Ignite" "maintained a"
    | (pulse) "cmd a = Ignite \<and> \<not> maintained a \<or> cmd a = PulseHigh"
    | (hold) "cmd a = On \<or> cmd a = High"
    | (opens) "cmd a = Off \<or> cmd a = Low"
    by auto
  then show ?thesis
  proof cases
    case maintained
    with sig(3)
    have "t < clock w + 3/2 \<or> (\<exists>h. hold_seconds a = Some h \<and> t < clock w + 3/2 + h)"
      by (cases "hold_seconds a") (auto simp: timed_span_def max_def split: if_splits)
    from maintained_cancelled [OF hw sig(1,2) this] maintained show ?thesis
      by (simp add: pattern_of_def)
  next
    case pulse
    with sig(3) have "t < clock w + real_of_int (pulse_ms a) / 1000"
      using sig(2) by (auto simp: timed_span_def max_def split: if_splits)
    from pulse_cancelled [OF hw sig(1,2) this] pulse show ?thesis
      by (auto simp: pattern_of_def)
  next
    case hold
    with sig(2,3) obtain h where h: "hold_seconds a = Some h" "t < clock w + h"
      by (cases "hold_seconds a") (auto simp: timed_span_def max_def split: if_splits)
    from hold_cancelled [OF hw sig(1,2) h(2)] hold h(1) show ?thesis
      by (auto simp: pattern_of_def)
  next
    case opens
    with sig(2,3) show ?thesis by (auto simp: timed_span_def)
  qed
qed

text \<open>
  The fail-safe open, the guard and the pattern together. The guard's wait is
  \<open>guard_delay\<close> and the timed waits of the pattern last \<open>timed_span\<close>.
\<close>

lemma timed_span_nonneg: "0 \<le> timed_span a"
  by (cases "hold_seconds a") (simp_all add: timed_span_def)

lemma guard_delay_nonneg: "0 \<le> guard_delay a w"
  by (cases "uptime w") (simp_all add: guard_delay_def)

lemma guard_delay_eq:
  "(if 0 < (if cmd a \<in> {Ignite, On, Off} then boot_guard_seconds a else 0)
    then (case uptime w of None \<Rightarrow> 0
          | Some u \<Rightarrow> max 0 ((if cmd a \<in> {Ignite, On, Off} then boot_guard_seconds a else 0) - u))
    else 0) = guard_delay a w"
  by (simp add: guard_delay_def)

lemma command_relay_simps [simp]:
  "pin (cfg (command_relay a p)) = p" "dry_run (command_relay a p) = args_dry_run a"
  by (simp_all add: command_relay_def)

lemma hardware_ok_binding:
  "hardware_ok a w p \<Longrightarrow> args_dry_run a \<or> (gpiozero w \<and> \<not> device_fails w p)"
  by (auto simp: hardware_ok_def)

lemma hardware_ok_writes:
  "hardware_ok a w p \<Longrightarrow> dry_run (command_relay a p) \<or> (\<forall>k. \<not> write_fails w k)"
  by (auto simp: hardware_ok_def)

lemma open_then_guard:
  assumes rp: "relay_pin a = Some p" and hw: "hardware_ok a w p"
    and sig: "\<forall>t. sigint w = Some t \<longrightarrow> clock w + guard_delay a w \<le> t"
  shows "\<exists>w2. main a w = and_then (pattern_of a (command_relay a p)) (\<lambda>_. ret 0) w2
     \<and> trace w2 = trace w @ [(clock w, Open p)]
     \<and> clock w2 = clock w + guard_delay a w
     \<and> sigint w2 = sigint w \<and> write_fails w2 = write_fails w"
proof -
  let ?g = "if cmd a \<in> {Ignite, On, Off} then boot_guard_seconds a else 0"
  note m = main_as_pattern [OF rp hardware_ok_binding [OF hw]]
  from relay_open_ok [OF hardware_ok_writes [OF hw]]
  obtain w1 where o: "relay_open (command_relay a p) w = Some (Inr (), w1)"
    and w1: "trace w1 = trace w @ [(clock w, Open p)]" "clock w1 = clock w"
      "sigint w1 = sigint w" "uptime w1 = uptime w" "write_fails w1 = write_fails w"
    by auto
  have "\<forall>t. sigint w1 = Some t \<longrightarrow>
      clock w1 + (if 0 < ?g then (case uptime w1 of None \<Rightarrow> 0 | Some u \<Rightarrow> max 0 (?g - u)) else 0) \<le> t"
    using sig w1 by (simp only: guard_delay_eq)
  from guard_blocks [OF this, of "args_dry_run a"]
  obtain w2 where gd: "guard_after_boot ?g (args_dry_run a) w1 = Some (Inr (), w2)"
    and w2: "clock w2 = clock w1
         + (if 0 < ?g then (case uptime w1 of None \<Rightarrow> 0 | Some u \<Rightarrow> max 0 (?g - u)) else 0)"
      "trace w2 = trace w1" "sigint w2 = sigint w1" "write_fails w2 = write_fails w1"
    by blast
  have c2: "clock w2 = clock w + guard_delay a w"
    using w2(1) w1 by (simp only: guard_delay_eq)
  have "main a w = and_then (pattern_of a (command_relay a p)) (\<lambda>_. ret 0) w2"
    unfolding m using o gd by (simp add: and_then_def)
  with w1 w2 c2 show ?thesis by auto
qed

lemma invocation_completes:
  assumes rp: "relay_pin a = Some p" and hw: "hardware_ok a w p"
    and timed: "\<not> holds_indefinitely a"
    and sig: "\<forall>t. sigint w = Some t \<longrightarrow> clock w + guard_delay a w + timed_span a \<le> t"
  shows "\<exists>w'. main a w = Some (Inr 0, w')
     \<and> trace w' = trace w @ (clock w, Open p) # pattern_trace a p (clock w + guard_delay a w) e
     \<and> clock w' = clock w + guard_delay a w + timed_span a"
proof -
  have "\<forall>t. sigint w = Some t \<longrightarrow> clock w + guard_delay a w \<le> t"
    using sig timed_span_nonneg [of a] by fastforce
  from open_then_guard [OF rp hw this]
  obtain w2 where m: "main a w = and_then (pattern_of a (command_relay a p)) (\<lambda>_. ret 0) w2"
    and w2: "trace w2 = trace w @ [(clock w, Open p)]" "clock w2 = clock w + guard_delay a w"
      "sigint w2 = sigint w" "write_fails w2 = write_fails w"
    by blast
  have hw2: "dry_run (command_relay a p) \<or> (\<forall>k. \<not> write_fails w2 k)"
    using hardware_ok_writes [OF hw] w2 by simp
  have sig2: "\<forall>t. sigint w2 = Some t \<longrightarrow> clock w2 + timed_span a \<le> t"
    using sig w2 by simp
  from pattern_completes [OF rp hw2 _ timed sig2, of e]
  obtain w' where p: "pattern_of a (command_relay a p) w2 = Some (Inr (), w')"
    and w': "trace w' = trace w2 @ pattern_trace a p (clock w2) e"
      "clock w' = clock w2 + timed_span a"
    by auto
  have "main a w = Some (Inr 0, w')"
    unfolding m using p by (simp add: and_then_def ret_def)
  with w2 w' show ?thesis by simp
qed

lemma invocation_released:
  assumes rp: "relay_pin a = Some p" and hw: "hardware_ok a w p"
    and ind: "holds_indefinitely a"
    and sig: "sigint w = Some t" "clock w + guard_delay a w + timed_span a \<le> t"
  shows "\<exists>w'. main a w = Some (Inr 0, w')
     \<and> trace w' = trace w @ (clock w, Open p) # pattern_trace a p (clock w + guard_delay a w) t
     \<and> clock w' = t"
proof -
  have "\<forall>t. sigint w = Some t \<longrightarrow> clock w + guard_delay a w \<le> t"
    using sig timed_span_nonneg [of a] by fastforce
  from open_then_guard [OF rp hw this]
  obtain w2 where m: "main a w = and_then (pattern_of a (command_relay a p)) (\<lambda>_. ret 0) w2"
    and w2: "trace w2 = trace w @ [(clock w, Open p)]" "clock w2 = clock w + guard_delay a w"
      "sigint w2 = sigint w" "write_fails w2 = write_fails w"
    by blast
  have hw2: "dry_run (command_relay a p) \<or> (\<forall>k. \<not> write_fails w2 k)"
    using hardware_ok_writes [OF hw] w2 by simp
  have sig2: "sigint w2 = Some t" "clock w2 + timed_span a \<le> t"
    using sig w2 by simp_all
  from pattern_released [OF rp hw2 _ ind sig2]
  obtain w' where p: "pattern_of a (command_relay a p) w2 = Some (Inr (), w')"
    and w': "trace w' = trace w2 @ pattern_trace a p (clock w2) t" "clock w' = t"
    by auto
  have "main a w = Some (Inr 0, w')"
    unfolding m using p by (simp add: and_then_def ret_def)
  with w2 w' show ?thesis by simp
qed

lemma invocation_cancelled:
  assumes rp: "relay_pin a = Some p" and hw: "hardware_ok a w p"
    and sig: "sigint w = Some t" "clock w \<le> t"
      "t < clock w + guard_delay a w + timed_span a"
  shows "\<exists>w'. main a w = Some (Inl KeyboardInterrupt, w') \<and> clock w' = t"
proof (cases "t < clock w + guard_delay a w")
  case True
  let ?g = "if cmd a \<in> {Ignite, On, Off} then boot_guard_seconds a else 0"
  note m = main_as_pattern [OF rp hardware_ok_binding [OF hw]]
  from relay_open_ok [OF hardware_ok_writes [OF hw]]
  obtain w1 where o: "relay_open (command_relay a p) w = Some (Inr (), w1)"
    and w1: "clock w1 = clock w" "sigint w1 = sigint w" "uptime w1 = uptime w"
    by auto
  have "t < clock w1
      + (if 0 < ?g then (case uptime w1 of None \<Rightarrow> 0 | Some u \<Rightarrow> max 0 (?g - u)) else 0)"
    using True w1 by (simp only: guard_delay_eq)
  from guard_cancelled [OF _ _ this, of "args_dry_run a"] sig w1
  obtain w2 where "guard_after_boot ?g (args_dry_run a) w1 = Some (Inl KeyboardInterrupt, w2)"
    "clock w2 = t"
    by auto
  then show ?thesis
    unfolding m using o by (simp add: and_then_def)
next
  case False
  then have "\<forall>t'. sigint w = Some t' \<longrightarrow> clock w + guard_delay a w \<le> t'"
    using sig by simp
  from open_then_guard [OF rp hw this]
  obtain w2 where m: "main a w = and_then (pattern_of a (command_relay a p)) (\<lambda>_. ret 0) w2"
    and w2: "clock w2 = clock w + guard_delay a w" "sigint w2 = sigint w"
      "write_fails w2 = write_fails w"
    by blast
  have hw2: "dry_run (command_relay a p) \<or> (\<forall>k. \<not> write_fails w2 k)"
    using hardware_ok_writes [OF hw] w2 by simp
  have sig2: "sigint w2 = Some t" "clock w2 \<le> t" "t < clock w2 + timed_span a"
    using sig False w2 by simp_all
  from pattern_cancelled [OF rp hw2 sig2]
  obtain w' where "pattern_of a (command_relay a p) w2 = Some (Inl KeyboardInterrupt, w')"
    "clock w' = t"
    by blast
  then show ?thesis
    unfolding m by (simp add: and_then_def)
qed

subsection \<open>The scope of the boot guard\<close>

lemma guard_delay_waiting:
  "cmd a \<in> {Ignite, On, Off} \<Longrightarrow> 0 < boot_guard_seconds a \<Longrightarrow> uptime w = Some u
    \<Longrightarrow> u < boot_guard_seconds a \<Longrightarrow> guard_delay a w = boot_guard_seconds a - u"
  by (simp add: guard_delay_def)

lemma guard_delay_unguarded: "cmd a \<notin> {Ignite, On, Off} \<Longrightarrow> guard_delay a w = 0"
  by (simp add: guard_delay_def)

lemma guarded_invocation:
  assumes c: "cmd a \<in> {Ignite, On, Off}"
    and rp: "relay_pin a = Some p" and hw: "hardware_ok a w p"
    and timed: "\<not> holds_indefinitely a"
    and up: "0 < boot_guard_seconds a" "uptime w = Some u" "u < boot_guard_seconds a"
    and sig: "sigint w = None"
  shows "\<exists>w'. main a w = Some (Inr 0, w')
     \<and> trace w' = trace w @ (clock w, Open p)
         # pattern_trace a p (clock w + (boot_guard_seconds a - u)) 0
     \<and> clock w' = clock w + (boot_guard_seconds a - u) + timed_span a"
proof -
  from sig have "\<forall>t. sigint w = Some t \<longrightarrow> clock w + guard_delay a w + timed_span a \<le> t"
    by simp
  from invocation_completes [OF rp hw timed this, of 0]
  show ?thesis by (simp only: guard_delay_waiting [OF c up])
qed

lemma guarded_invocation_released:
  assumes c: "cmd a \<in> {Ignite, On, Off}"
    and rp: "relay_pin a = Some p" and hw: "hardware_ok a w p"
    and ind: "holds_indefinitely a"
    and up: "0 < boot_guard_seconds a" "uptime w = Some u" "u < boot_guard_seconds a"
    and sig: "sigint w = Some t" "clock w + (boot_guard_seconds a - u) + timed_span a \<le> t"
  shows "\<exists>w'. main a w = Some (Inr 0, w')
     \<and> trace w' = trace w @ (clock w, Open p)
         # pattern_trace a p (clock w + (boot_guard_seconds a - u)) t
     \<and> clock w' = t"
proof -
  from sig(2) have "clock w + guard_delay a w + timed_span a \<le> t"
    by (simp only: guard_delay_waiting [OF c up])
  from invocation_released [OF rp hw ind sig(1) this]
  show ?thesis by (simp only: guard_delay_waiting [OF c up])
qed

lemma unguarded_invocation:
  assumes c: "cmd a \<notin> {Ignite, On, Off}"
    and rp: "relay_pin a = Some p" and hw: "hardware_ok a w p"
    and timed: "\<not> holds_indefinitely a"
    and sig: "sigint w = None"
  shows "\<exists>w'. main a w = Some (Inr 0, w')
     \<and> trace w' = trace w @ (clock w, Open p) # pattern_trace a p (clock w) 0
     \<and> clock w' = clock w + timed_span a"
proof -
  from sig have "\<forall>t. sigint w = Some t \<longrightarrow> clock w + guard_delay a w + timed_span a \<le> t"
    by simp
  from invocation_completes [OF rp hw timed this, of 0]
  show ?thesis by (simp add: guard_delay_unguarded [OF c])
qed

text \<open>
  Claim C3 as stated fails: \<^verbatim>\<open>off\<close>, whose only relay operation is \<^verbatim>\<open>open()\<close>, is held
  back by the boot guard. With an uptime of 5 s and the default minimum of 12 s its
  second open comes 7 s after the first.
\<close>

theorem boot_guard_delays_off_counterexample:
  "observe (run (ignite_args\<lparr>cmd := Off\<rparr>) (world0\<lparr>uptime := Some 5\<rparr>))
     = Some (0, 7, [(0, Open 4), (7, Open 4)])"
  by (simp add: run_simps)

text \<open>
  Claim C3, amended. The boot guard is applied to exactly the commands on the main relay,
  \<^verbatim>\<open>ignite\<close>, \<^verbatim>\<open>on\<close> and \<^verbatim>\<open>off\<close>; the deactivation-only \<^verbatim>\<open>off\<close> is among them. Any
  other command never reads the uptime, and a command on the high-flame relay runs its
  pattern at once, whatever the uptime. One of the three guarded commands with a
  positive minimum, once its relay is made and opened, reads the uptime exactly once.
  Its fail-safe open is not delayed. When the uptime \<open>u\<close> is below the minimum \<open>g\<close> and
  no cancellation arrives, the command waits \<open>g - u\<close> after that open and only then runs
  its pattern (the pulse, the maintained call, the timed hold, or for \<^verbatim>\<open>off\<close> its
  second open), and it ends \<open>g - u\<close> plus the timed waits of the pattern after its
  start. An indefinite hold begins after the same wait and ends with the open at the
  cancellation.
\<close>

theorem boot_guard_scope:
  "(main a w = Some (res, w') \<and> cmd a \<notin> {Ignite, On, Off}
      \<longrightarrow> uptime_reads w' = uptime_reads w)
   \<and> (main a w = Some (res, w') \<and> cmd a \<in> {Ignite, On, Off} \<and> 0 < boot_guard_seconds a
        \<and> select_pin (main_relay a) (pin_main a) = Inr (Some p)
        \<and> select_pin (high_relay a) (pin_high a) = Inr hp
        \<and> (args_dry_run a
            \<or> (gpiozero w \<and> \<not> device_fails w p \<and> \<not> write_fails w (writes w)))
      \<longrightarrow> uptime_reads w' = Suc (uptime_reads w))
   \<and> (cmd a \<in> {Ignite, On, Off} \<and> relay_pin a = Some p \<and> hardware_ok a w p
        \<and> \<not> holds_indefinitely a
        \<and> 0 < boot_guard_seconds a \<and> uptime w = Some u \<and> u < boot_guard_seconds a
        \<and> sigint w = None
      \<longrightarrow> (\<exists>w''. main a w = Some (Inr 0, w'')
            \<and> trace w'' = trace w @ (clock w, Open p)
                # pattern_trace a p (clock w + (boot_guard_seconds a - u)) 0
            \<and> clock w'' = clock w + (boot_guard_seconds a - u) + timed_span a))
   \<and> (cmd a \<in> {Ignite, On, Off} \<and> relay_pin a = Some p \<and> hardware_ok a w p
        \<and> holds_indefinitely a
        \<and> 0 < boot_guard_seconds a \<and> uptime w = Some u \<and> u < boot_guard_seconds a
        \<and> sigint w = Some t \<and> clock w + (boot_guard_seconds a - u) + timed_span a \<le> t
      \<longrightarrow> (\<exists>w''. main a w = Some (Inr 0, w'')
            \<and> trace w'' = trace w @ (clock w, Open p)
                # pattern_trace a p (clock w + (boot_guard_seconds a - u)) t
            \<and> clock w'' = t))
   \<and> (cmd a \<notin> {Ignite, On, Off} \<and> relay_pin a = Some p \<and> hardware_ok a w p
        \<and> \<not> holds_indefinitely a \<and> sigint w = None
      \<longrightarrow> (\<exists>w''. main a w = Some (Inr 0, w'')
            \<and> trace w'' = trace w @ (clock w, Open p) # pattern_trace a p (clock w) 0
            \<and> clock w'' = clock w + timed_span a))
   \<and> (cmd a = Off \<and> 0 < boot_guard_seconds a
        \<and> select_pin (main_relay a) (pin_main a) = Inr (Some p)
        \<and> select_pin (high_relay a) (pin_high a) = Inr hp
        \<and> (args_dry_run a
            \<or> (gpiozero w \<and> \<not> device_fails w p \<and> (\<forall>k. \<not> write_fails w k)))
        \<and> uptime w = Some u \<and> u < boot_guard_seconds a \<and> sigint w = None
      \<longrightarrow> (\<exists>w''. main a w = Some (Inr 0, w'')
            \<and> trace w'' = trace w @
                [(clock w, Open p), (clock w + (boot_guard_seconds a - u), Open p)]))"
proof (intro conjI impI)
  assume "main a w = Some (res, w') \<and> cmd a \<notin> {Ignite, On, Off}"
  then show "uptime_reads w' = uptime_reads w"
    using keeps_main_unguarded [of a] unfolding keeps_uptime_reads_def by blast
next
  assume "main a w = Some (res, w') \<and> cmd a \<in> {Ignite, On, Off} \<and> 0 < boot_guard_seconds a
        \<and> select_pin (main_relay a) (pin_main a) = Inr (Some p)
        \<and> select_pin (high_relay a) (pin_high a) = Inr hp
        \<and> (args_dry_run a
            \<or> (gpiozero w \<and> \<not> device_fails w p \<and> \<not> write_fails w (writes w)))"
  then show "uptime_reads w' = Suc (uptime_reads w)"
    using main_guarded_reads [of a p hp w res w'] by blast
next
  assume "cmd a \<in> {Ignite, On, Off} \<and> relay_pin a = Some p \<and> hardware_ok a w p
        \<and> \<not> holds_indefinitely a
        \<and> 0 < boot_guard_seconds a \<and> uptime w = Some u \<and> u < boot_guard_seconds a
        \<and> sigint w = None"
  then show "\<exists>w''. main a w = Some (Inr 0, w'')
            \<and> trace w'' = trace w @ (clock w, Open p)
                # pattern_trace a p (clock w + (boot_guard_seconds a - u)) 0
            \<and> clock w'' = clock w + (boot_guard_seconds a - u) + timed_span a"
    using guarded_invocation [of a p w u] by blast
next
  assume "cmd a \<in> {Ignite, On, Off} \<and> relay_pin a = Some p \<and> hardware_ok a w p
        \<and> holds_indefinitely a
        \<and> 0 < boot_guard_seconds a \<and> uptime w = Some u \<and> u < boot_guard_seconds a
        \<and> sigint w = Some t \<and> clock w + (boot_guard_seconds a - u) + timed_span a \<le> t"
  then show "\<exists>w''. main a w = Some (Inr 0, w'')
            \<and> trace w'' = trace w @ (clock w, Open p)
                # pattern_trace a p (clock w + (boot_guard_seconds a - u)) t
            \<and> clock w'' = t"
    using guarded_invocation_released [of a p w u t] by blast
next
  assume "cmd a \<notin> {Ignite, On, Off} \<and> relay_pin a = Some p \<and> hardware_ok a w p
        \<and> \<not> holds_indefinitely a \<and> sigint w = None"
  then show "\<exists>w''. main a w = Some (Inr 0, w'')
            \<and> trace w'' = trace w @ (clock w, Open p) # pattern_trace a p (clock w) 0
            \<and> clock w'' = clock w + timed_span a"
    using unguarded_invocation [of a p w] by blast
next
  assume "cmd a = Off \<and> 0 < boot_guard_seconds a
        \<and> select_pin (main_relay a) (pin_main a) = Inr (Some p)
        \<and> select_pin (high_relay a) (pin_high a) = Inr hp
        \<and> (args_dry_run a
            \<or> (gpiozero w \<and> \<not> device_fails w p \<and> (\<forall>k. \<not> write_fails w k)))
        \<and> uptime w = Some u \<and> u < boot_guard_seconds a \<and> sigint w = None"
  then show "\<exists>w''. main a w = Some (Inr 0, w'')
            \<and> trace w'' = trace w @
                [(clock w, Open p), (clock w + (boot_guard_seconds a - u), Open p)]"
    using off_waits_for_guard [of a p hp w u] by blast
qed

text \<open>
  Witness for the amended C3: \<^verbatim>\<open>low\<close> in dry-run mode; \<^verbatim>\<open>off\<close>, \<^verbatim>\<open>ignite\<close> and
  \<^verbatim>\<open>pulse-high\<close> on working hardware with an uptime of 5 s; and \<^verbatim>\<open>on\<close> without a
  hold duration with an uptime of 5 s, cancelled at 20 s.
\<close>

theorem boot_guard_scope_witness:
  "main (ignite_args\<lparr>cmd := Low, high_relay := Some ''high_flame'', args_dry_run := True\<rparr>) world0
     = Some (Inr 0, world0\<lparr>trace := [(0, Open 22), (0, Open 22)],
                              stdout := [DryRunOpen 22, DryRunOpen 22]\<rparr>)
   \<and> uptime_reads (world0\<lparr>trace := [(0, Open 22), (0, Open 22)],
                           stdout := [DryRunOpen 22, DryRunOpen 22]\<rparr>) = uptime_reads world0
   \<and> main (ignite_args\<lparr>cmd := Off\<rparr>) (world0\<lparr>uptime := Some 5\<rparr>)
     = Some (Inr 0, world0\<lparr>clock := 7, uptime := Some 5, uptime_reads := 1, writes := 2,
                              trace := [(0, Open 4), (7, Open 4)],
                              stdout := [BootGuardWaiting 7]\<rparr>)
   \<and> uptime_reads (world0\<lparr>clock := 7, uptime := Some 5, uptime_reads := 1, writes := 2,
                              trace := [(0, Open 4), (7, Open 4)],
                              stdout := [BootGuardWaiting 7]\<rparr>)
       = Suc (uptime_reads (world0\<lparr>uptime := Some 5\<rparr>))
   \<and> (\<exists>w''. main ignite_args (world0\<lparr>uptime := Some 5\<rparr>) = Some (Inr 0, w'')
         \<and> trace w'' = [(0, Open 4), (7, Open 4), (7, Close 4), (29/4, Open 4)]
         \<and> clock w'' = 29/4)
   \<and> (\<exists>w''. main (ignite_args\<lparr>cmd := On\<rparr>) (world0\<lparr>uptime := Some 5, sigint := Some 20\<rparr>)
           = Some (Inr 0, w'')
         \<and> trace w'' = [(0, Open 4), (7, Open 4), (7, Close 4), (20, Open 4)]
         \<and> clock w'' = 20)
   \<and> (\<exists>w''. main (ignite_args\<lparr>cmd := PulseHigh, high_relay := Some ''high_flame''\<rparr>)
            (world0\<lparr>uptime := Some 5\<rparr>) = Some (Inr 0, w'')
         \<and> trace w'' = [(0, Open 22), (0, Open 22), (0, Close 22), (1/4, Open 22)]
         \<and> clock w'' = 1/4)
   \<and> (\<exists>w''. main (ignite_args\<lparr>cmd := Off\<rparr>) (world0\<lparr>uptime := Some 5\<rparr>) = Some (Inr 0, w'')
         \<and> trace w'' = [(0, Open 4), (7, Open 4)])"
proof -
  let ?low = "ignite_args\<lparr>cmd := Low, high_relay := Some ''high_flame'', args_dry_run := True\<rparr>"
  let ?wl = "world0\<lparr>trace := [(0, Open 22), (0, Open 22)],
                     stdout := [DryRunOpen 22, DryRunOpen 22]\<rparr>"
  let ?off = "ignite_args\<lparr>cmd := Off\<rparr>"
  let ?on = "ignite_args\<lparr>cmd := On\<rparr>"
  let ?ph = "ignite_args\<lparr>cmd := PulseHigh, high_relay := Some ''high_flame''\<rparr>"
  let ?w5 = "world0\<lparr>uptime := Some 5\<rparr>"
  let ?w20 = "world0\<lparr>uptime := Some 5, sigint := Some 20\<rparr>"
  let ?wo = "world0\<lparr>clock := 7, uptime := Some 5, uptime_reads := 1, writes := 2,
                     trace := [(0, Open 4), (7, Open 4)], stdout := [BootGuardWaiting 7]\<rparr>"
  have sp: "select_pin (main_relay ?off) (pin_main ?off) = Inr (Some 4)"
    "select_pin (high_relay ?off) (pin_high ?off) = Inr None"
    by (simp_all add: ignite_args_def select_pin_def truthy_def resolver_defs)
  have rp: "relay_pin ignite_args = Some 4" "relay_pin ?on = Some 4" "relay_pin ?ph = Some 22"
    by (simp_all add: relay_pin_def ignite_args_def select_pin_def truthy_def resolver_defs)
  have cl: "cmd ?low \<notin> {Ignite, On, Off}" and co: "cmd ?off \<in> {Ignite, On, Off}" "cmd ?off = Off"
    and ci: "cmd ignite_args \<in> {Ignite, On, Off}" "cmd ?on \<in> {Ignite, On, Off}"
      "cmd ?ph \<notin> {Ignite, On, Off}"
    and g: "0 < boot_guard_seconds ?off" "0 < boot_guard_seconds ignite_args"
      "0 < boot_guard_seconds ?on"
    and hi: "\<not> holds_indefinitely ignite_args" "holds_indefinitely ?on"
      "\<not> holds_indefinitely ?ph"
    by (simp_all add: ignite_args_def holds_indefinitely_def)
  have hw: "gpiozero ?w5 \<and> \<not> device_fails ?w5 4 \<and> \<not> write_fails ?w5 (writes ?w5)"
    "gpiozero ?w5 \<and> \<not> device_fails ?w5 4 \<and> (\<forall>k. \<not> write_fails ?w5 k)"
    "uptime ?w5 = Some 5" "sigint ?w5 = None" "5 < boot_guard_seconds ?off"
    "clock ?w5 = 0" "trace ?w5 = []"
    by (simp_all add: world0_def ignite_args_def)
  have ok: "hardware_ok ignite_args ?w5 4" "hardware_ok ?on ?w20 4" "hardware_ok ?ph ?w5 22"
    by (simp_all add: hardware_ok_def world0_def ignite_args_def)
  have u: "5 < boot_guard_seconds ignite_args" "5 < boot_guard_seconds ?on"
    "uptime ?w20 = Some 5" "sigint ?w20 = Some 20"
    "clock ?w20 + (boot_guard_seconds ?on - 5) + timed_span ?on \<le> 20"
    by (simp_all add: world0_def ignite_args_def timed_span_def)
  have a: "uptime_reads ?wl = uptime_reads world0"
    using boot_guard_scope [where a = ?low and w = world0 and res = "Inr 0" and w' = ?wl]
      low_dry_run cl by blast
  have b: "uptime_reads ?wo = Suc (uptime_reads ?w5)"
    using boot_guard_scope [where a = ?off and w = ?w5 and res = "Inr 0" and w' = ?wo
        and p = 4 and hp = None]
      off_live_run co g sp hw(1) by blast
  have "\<exists>w''. main ignite_args ?w5 = Some (Inr 0, w'')
         \<and> trace w'' = trace ?w5 @ (clock ?w5, Open 4)
             # pattern_trace ignite_args 4 (clock ?w5 + (boot_guard_seconds ignite_args - 5)) 0
         \<and> clock w'' = clock ?w5 + (boot_guard_seconds ignite_args - 5) + timed_span ignite_args"
    using boot_guard_scope [where a = ignite_args and w = ?w5 and p = 4 and u = 5]
      ci(1) rp(1) ok(1) hi(1) g(2) hw(3,4) u(1) by blast
  then have c: "\<exists>w''. main ignite_args ?w5 = Some (Inr 0, w'')
         \<and> trace w'' = [(0, Open 4), (7, Open 4), (7, Close 4), (29/4, Open 4)]
         \<and> clock w'' = 29/4"
    by (simp add: world0_def ignite_args_def pattern_trace_def timed_span_def)
  have "\<exists>w''. main ?on ?w20 = Some (Inr 0, w'')
         \<and> trace w'' = trace ?w20 @ (clock ?w20, Open 4)
             # pattern_trace ?on 4 (clock ?w20 + (boot_guard_seconds ?on - 5)) 20
         \<and> clock w'' = 20"
    using boot_guard_scope [where a = ?on and w = ?w20 and p = 4 and u = 5 and t = 20]
      ci(2) rp(2) ok(2) hi(2) g(3) u(2,3,4,5) by blast
  then have d: "\<exists>w''. main ?on ?w20 = Some (Inr 0, w'')
         \<and> trace w'' = [(0, Open 4), (7, Open 4), (7, Close 4), (20, Open 4)]
         \<and> clock w'' = 20"
    by (simp add: world0_def ignite_args_def pattern_trace_def)
  have "\<exists>w''. main ?ph ?w5 = Some (Inr 0, w'')
         \<and> trace w'' = trace ?w5 @ (clock ?w5, Open 22) # pattern_trace ?ph 22 (clock ?w5) 0
         \<and> clock w'' = clock ?w5 + timed_span ?ph"
    using boot_guard_scope [where a = ?ph and w = ?w5 and p = 22]
      ci(3) rp(3) ok(3) hi(3) hw(4) by blast
  then have e: "\<exists>w''. main ?ph ?w5 = Some (Inr 0, w'')
         \<and> trace w'' = [(0, Open 22), (0, Open 22), (0, Close 22), (1/4, Open 22)]
         \<and> clock w'' = 1/4"
    by (simp add: world0_def ignite_args_def pattern_trace_def timed_span_def)
  have "\<exists>w''. main ?off ?w5 = Some (Inr 0, w'')
         \<and> trace w'' = trace ?w5 @ [(clock ?w5, Open 4), (clock ?w5 + (boot_guard_seconds ?off - 5), Open 4)]"
    using boot_guard_scope [where a = ?off and w = ?w5 and p = 4 and hp = None and u = 5]
      co g sp hw by blast
  then have f: "\<exists>w''. main ?off ?w5 = Some (Inr 0, w'') \<and> trace w'' = [(0, Open 4), (7, Open 4)]"
    by (simp add: world0_def ignite_args_def)
  from a b c d e f low_dry_run off_live_run show ?thesis by blast
qed

subsection \<open>Write failures within an invocation\<close>

text \<open>The patterns on live hardware when the k-th write from their start is the first to fail.\<close>

lemmas live_simps = steps.simps and_then_def ret_def print_def catch_keyboard_interrupt_def
  sleep_with_sigint_eq sleep_forever_eq max_def relay_open_live relay_close_live ops_def

lemma first_failure_facts:
  assumes "\<forall>j<k. \<not> write_fails w (writes w + j)"
  shows "0 < k \<Longrightarrow> \<not> write_fails w (writes w)"
    and "1 < k \<Longrightarrow> \<not> write_fails w (Suc (writes w))"
    and "2 < k \<Longrightarrow> \<not> write_fails w (Suc (Suc (writes w)))"
    and "3 < k \<Longrightarrow> \<not> write_fails w (Suc (Suc (Suc (writes w))))"
  using assms [rule_format, of 0] assms [rule_format, of 1] assms [rule_format, of 2]
    assms [rule_format, of 3]
  by (simp_all add: numeral_2_eq_2 numeral_3_eq_3)

lemma open_write_failure:
  assumes live: "\<not> dry_run r" and bad: "write_fails w (writes w)"
  shows "\<exists>w'. relay_open r w = Some (Inl DeviceError, w')
      \<and> ops w' = ops w @ [Open (pin (cfg r))] \<and> writes w' = Suc (writes w)"
  using assms by (simp add: relay_open_live ops_def)

lemma maintained_write_failure:
  assumes live: "\<not> dry_run r" and sig: "sigint w = None"
    and k: "k < 4 \<or> (k = 4 \<and> hs \<noteq> None)"
    and bad: "write_fails w (writes w + k)"
    and good: "\<forall>j<k. \<not> write_fails w (writes w + j)"
  shows "\<exists>w'. cmd_maintained r hs w = Some (Inl DeviceError, w')
      \<and> ops w' = ops w @ take (Suc k)
           [Open (pin (cfg r)), Close (pin (cfg r)), Open (pin (cfg r)), Close (pin (cfg r)),
            Open (pin (cfg r))]
      \<and> writes w' = writes w + Suc k"
proof -
  note g = first_failure_facts [OF good]
  from k consider "k = 0" | "k = 1" | "k = 2" | "k = 3" | "k = 4" "hs \<noteq> None" by linarith
  then show ?thesis
  proof cases
    case 1
    with bad live show ?thesis by (simp add: cmd_maintained_def live_simps)
  next
    case 2
    with bad live sig g show ?thesis by (simp add: cmd_maintained_def live_simps)
  next
    case 3
    with bad live sig g show ?thesis
      by (simp add: cmd_maintained_def live_simps numeral_2_eq_2)
  next
    case 4
    with bad live sig g show ?thesis
      by (simp add: cmd_maintained_def live_simps numeral_3_eq_3)
  next
    case 5
    then obtain h where h: "hs = Some h" by blast
    have e: "writes w + 4 = Suc (Suc (Suc (Suc (writes w))))" by simp
    from 5 h bad live sig g show ?thesis
      by (simp add: cmd_maintained_def live_simps e)
  qed
qed

lemma hold_release_write_failure:
  assumes live: "\<not> dry_run r" and sig: "sigint w = Some t" "clock w \<le> t"
    and bad: "write_fails w (writes w + 2)"
    and good: "\<forall>j<2. \<not> write_fails w (writes w + j)"
  shows "\<exists>w'. cmd_hold r None w = Some (Inl DeviceError, w')
      \<and> ops w' = ops w @ [Open (pin (cfg r)), Close (pin (cfg r)), Open (pin (cfg r))]
      \<and> writes w' = writes w + 3"
proof -
  note g = first_failure_facts [OF good]
  from bad live sig g show ?thesis
    by (simp add: cmd_hold_def live_simps)
qed

lemma maintained_release_write_failure:
  assumes live: "\<not> dry_run r" and sig: "sigint w = Some t" "clock w + 3/2 \<le> t"
    and bad: "write_fails w (writes w + 4)"
    and good: "\<forall>j<4. \<not> write_fails w (writes w + j)"
  shows "\<exists>w'. cmd_maintained r None w = Some (Inl DeviceError, w')
      \<and> ops w' = ops w @ [Open (pin (cfg r)), Close (pin (cfg r)), Open (pin (cfg r)),
                           Close (pin (cfg r)), Open (pin (cfg r))]
      \<and> writes w' = writes w + 5"
proof -
  note g = first_failure_facts [OF good]
  have e: "writes w + 4 = Suc (Suc (Suc (Suc (writes w))))" by simp
  from bad live sig g show ?thesis
    by (simp add: cmd_maintained_def live_simps e)
qed

lemma pattern_trace_ops:
  "relay_pin a = Some p \<Longrightarrow> Open p # map snd (pattern_trace a p s e) = command_ops a p"
  by (drule relay_pin_command) (auto simp: pattern_trace_def command_ops_def)

lemma pattern_write_failure:
  assumes rp: "relay_pin a = Some p" and live: "\<not> dry_run r" and r: "pin (cfg r) = p"
    and sig: "sigint w = None"
    and k: "Suc k < length (command_ops a p)"
    and ind: "holds_indefinitely a \<longrightarrow> Suc (Suc k) < length (command_ops a p)"
    and bad: "write_fails w (writes w + k)"
    and good: "\<forall>j<k. \<not> write_fails w (writes w + j)"
  shows "\<exists>w'. pattern_of a r w = Some (Inl DeviceError, w')
      \<and> ops w' = ops w @ take (Suc k) (tl (command_ops a p))
      \<and> writes w' = writes w + Suc k"
proof -
  from relay_pin_command [OF rp]
  consider (maintained) "cmd a = Ignite" "maintained a"
    | (pulse) "cmd a = Ignite \<and> \<not> maintained a \<or> cmd a = PulseHigh"
    | (hold) "cmd a = On \<or> cmd a = High"
    | (opens) "cmd a = Off \<or> cmd a = Low"
    by auto
  then show ?thesis
  proof cases
    case maintained
    with k ind have "k < 4 \<or> (k = 4 \<and> hold_seconds a \<noteq> None)"
      by (auto simp: command_ops_def holds_indefinitely_def)
    from maintained_write_failure [OF live sig this bad good] maintained r show ?thesis
      by (simp add: pattern_of_def command_ops_def)
  next
    case pulse
    with k have "k < 3" by (auto simp: command_ops_def)
    from pulse_write_failure [OF live sig this bad good, of "pulse_ms a"] pulse r show ?thesis
      by (auto simp: pattern_of_def command_ops_def)
  next
    case hold
    with k ind have "k < 2 \<or> (k = 2 \<and> hold_seconds a \<noteq> None)"
      by (auto simp: command_ops_def holds_indefinitely_def)
    from hold_write_failure [OF live sig this bad good] hold r show ?thesis
      by (auto simp: pattern_of_def command_ops_def)
  next
    case opens
    with k have k0: "k = 0" by (auto simp: command_ops_def)
    with bad have "write_fails w (writes w)" by simp
    from open_write_failure [OF live this] opens r k0 show ?thesis
      by (auto simp: pattern_of_def command_ops_def)
  qed
qed

lemma pattern_release_write_failure:
  assumes rp: "relay_pin a = Some p" and live: "\<not> dry_run r" and r: "pin (cfg r) = p"
    and ind: "holds_indefinitely a"
    and sig: "sigint w = Some t" "clock w + timed_span a \<le> t"
    and k: "Suc (Suc k) = length (command_ops a p)"
    and bad: "write_fails w (writes w + k)"
    and good: "\<forall>j<k. \<not> write_fails w (writes w + j)"
  shows "\<exists>w'. pattern_of a r w = Some (Inl DeviceError, w')
      \<and> ops w' = ops w @ tl (command_ops a p)
      \<and> writes w' = writes w + Suc k"
proof -
  from ind consider (maintained) "cmd a = Ignite" "maintained a" "hold_seconds a = None"
    | (hold) "cmd a = On \<or> cmd a = High" "\<not> (cmd a = Ignite \<and> maintained a)"
        "hold_seconds a = None"
    by (auto simp: holds_indefinitely_def)
  then show ?thesis
  proof cases
    case maintained
    with k have k4: "k = 4" by (simp add: command_ops_def)
    from maintained sig have s: "clock w + 3/2 \<le> t" by (simp add: timed_span_def)
    from maintained_release_write_failure [OF live sig(1) s] bad good k4 maintained r
    show ?thesis by (simp add: pattern_of_def command_ops_def)
  next
    case hold
    with k have k2: "k = 2" by (auto simp: command_ops_def)
    from hold sig have s: "clock w \<le> t" by (auto simp: timed_span_def)
    from hold_release_write_failure [OF live sig(1) s] bad good k2 hold r
    show ?thesis by (auto simp: pattern_of_def command_ops_def)
  qed
qed

lemma live_open_then_guard:
  assumes rp: "relay_pin a = Some p" and live: "\<not> args_dry_run a"
    and gp: "gpiozero w" and dev: "\<not> device_fails w p"
    and first: "\<not> write_fails w (writes w)"
    and sig: "\<forall>t. sigint w = Some t \<longrightarrow> clock w + guard_delay a w \<le> t"
  shows "\<exists>w2. main a w = and_then (pattern_of a (command_relay a p)) (\<lambda>_. ret 0) w2
     \<and> ops w2 = ops w @ [Open p]
     \<and> clock w2 = clock w + guard_delay a w
     \<and> sigint w2 = sigint w \<and> write_fails w2 = write_fails w \<and> writes w2 = Suc (writes w)"
proof -
  let ?g = "if cmd a \<in> {Ignite, On, Off} then boot_guard_seconds a else 0"
  let ?w1 = "w\<lparr>writes := Suc (writes w), trace := trace w @ [(clock w, Open p)]\<rparr>"
  from gp dev have "args_dry_run a \<or> (gpiozero w \<and> \<not> device_fails w p)" by simp
  note m = main_as_pattern [OF rp this]
  have o: "relay_open (command_relay a p) w = Some (Inr (), ?w1)"
    using live first by (simp add: relay_open_live)
  have eq: "clock ?w1 = clock w" "uptime ?w1 = uptime w" "sigint ?w1 = sigint w" by simp_all
  have "\<forall>t. sigint ?w1 = Some t \<longrightarrow>
      clock ?w1 + (if 0 < ?g then (case uptime ?w1 of None \<Rightarrow> 0 | Some u \<Rightarrow> max 0 (?g - u)) else 0) \<le> t"
    using sig by (simp only: eq guard_delay_eq)
  from guard_blocks [OF this, of "args_dry_run a"]
  obtain w2 where gd: "guard_after_boot ?g (args_dry_run a) ?w1 = Some (Inr (), w2)"
    and w2: "clock w2 = clock ?w1
         + (if 0 < ?g then (case uptime ?w1 of None \<Rightarrow> 0 | Some u \<Rightarrow> max 0 (?g - u)) else 0)"
      "trace w2 = trace ?w1" "sigint w2 = sigint ?w1" "write_fails w2 = write_fails ?w1"
      "writes w2 = writes ?w1"
    by blast
  have c2: "clock w2 = clock w + guard_delay a w"
    using w2(1) by (simp only: eq guard_delay_eq)
  have "main a w = and_then (pattern_of a (command_relay a p)) (\<lambda>_. ret 0) w2"
    unfolding m using o gd by (simp add: and_then_def)
  with w2 c2 show ?thesis by (auto simp: ops_def)
qed

lemma command_ops_head: "relay_pin a = Some p \<Longrightarrow> command_ops a p = Open p # tl (command_ops a p)"
  by (simp add: command_ops_def)

lemma invocation_write_failure:
  assumes rp: "relay_pin a = Some p" and live: "\<not> args_dry_run a"
    and gp: "gpiozero w" and dev: "\<not> device_fails w p"
    and sig: "sigint w = None"
    and k: "k < length (command_ops a p)"
    and ind: "holds_indefinitely a \<longrightarrow> Suc k < length (command_ops a p)"
    and bad: "write_fails w (writes w + k)"
    and good: "\<forall>j<k. \<not> write_fails w (writes w + j)"
  shows "\<exists>w'. main a w = Some (Inl DeviceError, w')
      \<and> ops w' = ops w @ take (Suc k) (command_ops a p)
      \<and> writes w' = writes w + Suc k"
proof (cases k)
  case 0
  from gp dev have "args_dry_run a \<or> (gpiozero w \<and> \<not> device_fails w p)" by simp
  note m = main_as_pattern [OF rp this]
  from 0 bad have "write_fails w (writes w)" by simp
  with live have "relay_open (command_relay a p) w
      = Some (Inl DeviceError, w\<lparr>writes := Suc (writes w), trace := trace w @ [(clock w, Open p)]\<rparr>)"
    by (simp add: relay_open_live)
  then show ?thesis
    unfolding m using 0 by (simp add: and_then_def ops_def command_ops_def)
next
  case (Suc k')
  with good have first: "\<not> write_fails w (writes w)" by auto
  from sig have "\<forall>t. sigint w = Some t \<longrightarrow> clock w + guard_delay a w \<le> t" by simp
  from live_open_then_guard [OF rp live gp dev first this]
  obtain w2 where m: "main a w = and_then (pattern_of a (command_relay a p)) (\<lambda>_. ret 0) w2"
    and w2: "ops w2 = ops w @ [Open p]" "sigint w2 = sigint w"
      "write_fails w2 = write_fails w" "writes w2 = Suc (writes w)"
    by blast
  have live2: "\<not> dry_run (command_relay a p)" using live by simp
  have sig2: "sigint w2 = None" using sig w2 by simp
  have k2: "Suc k' < length (command_ops a p)" using k Suc by simp
  have ind2: "holds_indefinitely a \<longrightarrow> Suc (Suc k') < length (command_ops a p)"
    using ind Suc by simp
  have bad2: "write_fails w2 (writes w2 + k')" using bad Suc w2 by simp
  have good2: "\<forall>j<k'. \<not> write_fails w2 (writes w2 + j)"
  proof (intro allI impI)
    fix j assume "j < k'"
    then have "Suc j < k" using Suc by simp
    with good have "\<not> write_fails w (writes w + Suc j)" by blast
    then show "\<not> write_fails w2 (writes w2 + j)" using w2 by simp
  qed
  from pattern_write_failure [OF rp live2 _ sig2 k2 ind2 bad2 good2]
  obtain w' where p: "pattern_of a (command_relay a p) w2 = Some (Inl DeviceError, w')"
    and w': "ops w' = ops w2 @ take (Suc k') (tl (command_ops a p))"
      "writes w' = writes w2 + Suc k'"
    by auto
  have "main a w = Some (Inl DeviceError, w')"
    unfolding m using p by (simp add: and_then_def)
  moreover have "take (Suc k) (command_ops a p) = Open p # take (Suc k') (tl (command_ops a p))"
    using Suc by (subst command_ops_head [OF rp]) simp
  ultimately show ?thesis using w2 w' Suc by simp
qed

lemma invocation_release_write_failure:
  assumes rp: "relay_pin a = Some p" and live: "\<not> args_dry_run a"
    and gp: "gpiozero w" and dev: "\<not> device_fails w p"
    and ind: "holds_indefinitely a"
    and sig: "sigint w = Some t" "clock w + guard_delay a w + timed_span a \<le> t"
    and k: "Suc k = length (command_ops a p)"
    and bad: "write_fails w (writes w + k)"
    and good: "\<forall>j<k. \<not> write_fails w (writes w + j)"
  shows "\<exists>w'. main a w = Some (Inl DeviceError, w')
      \<and> ops w' = ops w @ command_ops a p
      \<and> writes w' = writes w + Suc k"
proof -
  from k ind obtain k' where Suc: "k = Suc k'"
    by (cases k) (auto simp: command_ops_def holds_indefinitely_def)
  with good have first: "\<not> write_fails w (writes w)" by auto
  have "\<forall>t. sigint w = Some t \<longrightarrow> clock w + guard_delay a w \<le> t"
    using sig timed_span_nonneg [of a] by fastforce
  from live_open_then_guard [OF rp live gp dev first this]
  obtain w2 where m: "main a w = and_then (pattern_of a (command_relay a p)) (\<lambda>_. ret 0) w2"
    and w2: "ops w2 = ops w @ [Open p]" "clock w2 = clock w + guard_delay a w"
      "sigint w2 = sigint w" "write_fails w2 = write_fails w" "writes w2 = Suc (writes w)"
    by blast
  have live2: "\<not> dry_run (command_relay a p)" using live by simp
  have sig2: "sigint w2 = Some t" "clock w2 + timed_span a \<le> t" using sig w2 by simp_all
  have k2: "Suc (Suc k') = length (command_ops a p)" using k Suc by simp
  have bad2: "write_fails w2 (writes w2 + k')" using bad Suc w2 by simp
  have good2: "\<forall>j<k'. \<not> write_fails w2 (writes w2 + j)"
  proof (intro allI impI)
    fix j assume "j < k'"
    then have "Suc j < k" using Suc by simp
    with good have "\<not> write_fails w (writes w + Suc j)" by blast
    then show "\<not> write_fails w2 (writes w2 + j)" using w2 by simp
  qed
  from pattern_release_write_failure [OF rp live2 _ ind sig2 k2 bad2 good2]
  obtain w' where p: "pattern_of a (command_relay a p) w2 = Some (Inl DeviceError, w')"
    and w': "ops w' = ops w2 @ tl (command_ops a p)" "writes w' = writes w2 + Suc k'"
    by auto
  have "main a w = Some (Inl DeviceError, w')"
    unfolding m using p by (simp add: and_then_def)
  moreover have "command_ops a p = Open p # tl (command_ops a p)"
    by (rule command_ops_head [OF rp])
  ultimately show ?thesis using w2 w' Suc by (metis append.assoc append_Cons append_Nil add_Suc_shift add_Suc_right)
qed

text \<open>Write failures during the sweep.\<close>

lemma probe_pin_live_ok:
  assumes live: "\<not> d" and g: "gpiozero w" "\<not> device_fails w p" and sig: "sigint w = None"
    and good: "\<forall>j<3. \<not> write_fails w (writes w + j)"
  shows "\<exists>w'. probe_pin al pm os cs po d p w = Some (Inr (), w')
      \<and> ops w' = ops w @ [Open p, Close p, Open p] \<and> writes w' = writes w + 3
      \<and> sigint w' = sigint w \<and> gpiozero w' = gpiozero w
      \<and> device_fails w' = device_fails w \<and> write_fails w' = write_fails w"
proof -
  note f = first_failure_facts [OF good]
  from live g sig f show ?thesis
    by (simp add: probe_pin_def Relay_init_ok live_simps Let_def)
qed

lemma probe_pin_write_failure:
  assumes live: "\<not> d" and g: "gpiozero w" "\<not> device_fails w p" and sig: "sigint w = None"
    and k: "k < 3"
    and bad: "write_fails w (writes w + k)"
    and good: "\<forall>j<k. \<not> write_fails w (writes w + j)"
  shows "\<exists>w'. probe_pin al pm os cs po d p w = Some (Inl DeviceError, w')
      \<and> ops w' = ops w @ take (Suc k) [Open p, Close p, Open p]
      \<and> writes w' = writes w + Suc k"
proof -
  note f = first_failure_facts [OF good]
  from k consider "k = 0" | "k = 1" | "k = 2" by linarith
  then show ?thesis
  proof cases
    case 1
    with live g bad show ?thesis
      by (simp add: probe_pin_def Relay_init_ok live_simps Let_def)
  next
    case 2
    with live g sig bad f show ?thesis
      by (simp add: probe_pin_def Relay_init_ok live_simps Let_def)
  next
    case 3
    with live g sig bad f show ?thesis
      by (simp add: probe_pin_def Relay_init_ok live_simps Let_def numeral_2_eq_2)
  qed
qed

lemma sweep_ops_Cons: "sweep_ops (p # ps) = [Open p, Close p, Open p] @ sweep_ops ps"
  by (simp add: sweep_ops_def)

lemma probe_steps_write_failure:
  assumes live: "\<not> d" and g: "gpiozero w" "\<forall>p. \<not> device_fails w p" and sig: "sigint w = None"
    and k: "k < 3 * length ps"
    and bad: "write_fails w (writes w + k)"
    and good: "\<forall>j<k. \<not> write_fails w (writes w + j)"
  shows "\<exists>w'. steps (map (probe_pin al pm os cs po d) ps) w = Some (Inl DeviceError, w')
      \<and> ops w' = ops w @ take (Suc k) (sweep_ops ps)
      \<and> writes w' = writes w + Suc k"
  using g sig k bad good
proof (induction ps arbitrary: w k)
  case Nil
  then show ?case by simp
next
  case (Cons p ps)
  from Cons.prems(2) have dev: "\<not> device_fails w p" by blast
  show ?case
  proof (cases "k < 3")
    case True
    from probe_pin_write_failure [OF live Cons.prems(1) dev Cons.prems(3) True Cons.prems(5,6),
        of al pm os cs po]
    obtain w' where w': "probe_pin al pm os cs po d p w = Some (Inl DeviceError, w')"
      "ops w' = ops w @ take (Suc k) [Open p, Close p, Open p]" "writes w' = writes w + Suc k"
      by blast
    from True consider "k = 0" | "k = 1" | "k = 2" by linarith
    then have "take (Suc k) (sweep_ops (p # ps)) = take (Suc k) [Open p, Close p, Open p]"
      by cases (simp_all add: sweep_ops_Cons numeral_2_eq_2)
    with w' show ?thesis by (simp add: and_then_def)
  next
    case False
    then obtain k' where k': "k = 3 + k'" by (metis le_add_diff_inverse not_less)
    have good3: "\<forall>j<3. \<not> write_fails w (writes w + j)"
      using Cons.prems(6) k' by simp
    from probe_pin_live_ok [OF live Cons.prems(1) dev Cons.prems(3) good3, of al pm os cs po]
    obtain w1 where w1: "probe_pin al pm os cs po d p w = Some (Inr (), w1)"
      "ops w1 = ops w @ [Open p, Close p, Open p]" "writes w1 = writes w + 3"
      "sigint w1 = sigint w" "gpiozero w1 = gpiozero w"
      "device_fails w1 = device_fails w" "write_fails w1 = write_fails w"
      by blast
    have g1: "gpiozero w1" "\<forall>p. \<not> device_fails w1 p" using Cons.prems(1,2) w1 by simp_all
    have s1: "sigint w1 = None" using Cons.prems(3) w1 by simp
    have k1: "k' < 3 * length ps" using Cons.prems(4) k' by simp
    have bad1: "write_fails w1 (writes w1 + k')"
      using Cons.prems(5) k' w1 by (simp add: add.assoc)
    have good1: "\<forall>j<k'. \<not> write_fails w1 (writes w1 + j)"
    proof (intro allI impI)
      fix j assume "j < k'"
      then have "3 + j < k" using k' by simp
      with Cons.prems(6) have "\<not> write_fails w (writes w + (3 + j))" by blast
      then show "\<not> write_fails w1 (writes w1 + j)" using w1 by (simp add: add.assoc)
    qed
    from Cons.IH [OF g1 s1 k1 bad1 good1]
    obtain w' where w': "steps (map (probe_pin al pm os cs po d) ps) w1 = Some (Inl DeviceError, w')"
      "ops w' = ops w1 @ take (Suc k') (sweep_ops ps)" "writes w' = writes w1 + Suc k'"
      by blast
    have "take (Suc (Suc (Suc (Suc k')))) (sweep_ops (p # ps))
        = [Open p, Close p, Open p] @ take (Suc k') (sweep_ops ps)"
      by (simp add: sweep_ops_Cons)
    moreover have "Suc k = Suc (Suc (Suc (Suc k')))" using k' by simp
    ultimately have "take (Suc k) (sweep_ops (p # ps))
        = [Open p, Close p, Open p] @ take (Suc k') (sweep_ops ps)"
      by (simp only:)
    with w1 w' k' show ?thesis by (simp add: and_then_def)
  qed
qed

lemma probe_invocation_write_failure:
  assumes pr: "cmd a = Probe" "probe_pins a = Inr ps"
    and live: "\<not> args_dry_run a" and g: "gpiozero w" "\<forall>p. \<not> device_fails w p"
    and sig: "sigint w = None"
    and k: "k < 3 * length ps"
    and bad: "write_fails w (writes w + k)"
    and good: "\<forall>j<k. \<not> write_fails w (writes w + j)"
  shows "\<exists>w'. main a w = Some (Inl DeviceError, w')
      \<and> ops w' = ops w @ take (Suc k) (sweep_ops ps)
      \<and> writes w' = writes w + Suc k"
proof -
  let ?w0 = "w\<lparr>stdout := stdout w @ [ProbingMsg]\<rparr>"
  from k have ne: "ps \<noteq> []" by auto
  have g0: "gpiozero ?w0" "\<forall>p. \<not> device_fails ?w0 p" "sigint ?w0 = None"
    using g sig by simp_all
  have bad0: "write_fails ?w0 (writes ?w0 + k)" using bad by simp
  have good0: "\<forall>j<k. \<not> write_fails ?w0 (writes ?w0 + j)" using good by simp
  from probe_steps_write_failure [OF live g0 k bad0 good0, of "args_active_low a"]
  obtain w' where "steps (map (probe_pin (args_active_low a) (pulse_ms a) (open_seconds a)
      (close_seconds a) (post_open_seconds a) (args_dry_run a)) ps) ?w0
        = Some (Inl DeviceError, w')"
    "ops w' = ops ?w0 @ take (Suc k) (sweep_ops ps)" "writes w' = writes ?w0 + Suc k"
    by blast
  then show ?thesis
    unfolding main_probe [OF pr] using ne
    by (simp add: cmd_probe_def print_def and_then_def ops_def)
qed

text \<open>Without a failure the operations performed are the whole sequence of the command.\<close>

lemma invocation_ops:
  assumes rp: "relay_pin a = Some p" and hw: "hardware_ok a w p"
    and timed: "\<not> holds_indefinitely a" and sig: "sigint w = None"
  shows "\<exists>w'. run a w = Some (0, w') \<and> ops w' = ops w @ command_ops a p"
proof -
  from sig have "\<forall>t. sigint w = Some t \<longrightarrow> clock w + guard_delay a w + timed_span a \<le> t"
    by simp
  from invocation_completes [OF rp hw timed this, of 0]
  obtain w' where m: "main a w = Some (Inr 0, w')"
    and t: "trace w' = trace w @ (clock w, Open p) # pattern_trace a p (clock w + guard_delay a w) 0"
    by blast
  from t have "ops w' = ops w @ Open p # map snd (pattern_trace a p (clock w + guard_delay a w) 0)"
    by (simp add: ops_def)
  with pattern_trace_ops [OF rp] have "ops w' = ops w @ command_ops a p" by simp
  with run_returns [OF m] show ?thesis by blast
qed

lemma sweep_cycles_ops: "map snd (sweep_cycles s ow cw pw ps) = sweep_ops ps"
  by (induction ps arbitrary: s) (simp_all add: sweep_ops_def)

lemma probe_invocation_ops:
  assumes pr: "cmd a = Probe" "probe_pins a = Inr ps" and ne: "ps \<noteq> []"
    and hw: "args_dry_run a
      \<or> (gpiozero w \<and> (\<forall>p. \<not> device_fails w p) \<and> (\<forall>k. \<not> write_fails w k))"
    and sig: "sigint w = None"
  shows "\<exists>w'. run a w = Some (0, w') \<and> ops w' = ops w @ sweep_ops ps"
proof -
  from cmd_probe_sweep [OF hw sig ne, of "args_active_low a" "pulse_ms a" "open_seconds a"
      "close_seconds a" "post_open_seconds a"]
  obtain w' where c: "cmd_probe ps (args_active_low a) (pulse_ms a) (open_seconds a)
      (close_seconds a) (post_open_seconds a) (args_dry_run a) w = Some (Inr (), w')"
    and t: "trace w' = trace w @ sweep_cycles (clock w) (max 0 (open_seconds a))
       (max 0 (case close_seconds a of Some c \<Rightarrow> c | None \<Rightarrow> real_of_int (pulse_ms a) / 1000))
       (max 0 (post_open_seconds a)) ps"
    by blast
  have "main a w = Some (Inr 0, w')"
    unfolding main_probe [OF pr] using c by (simp add: and_then_def ret_def)
  moreover from t have "ops w' = ops w @ sweep_ops ps"
    by (simp add: ops_def sweep_cycles_ops)
  ultimately show ?thesis using run_returns by blast
qed

text \<open>
  Claim C4 as stated fails: when the close of an \<^verbatim>\<open>ignite\<close> pulse fails, the process ends
  with status 1 and the failed close is its last relay operation; no trailing open is
  attempted.
\<close>

theorem no_trailing_open_counterexample:
  "observe (run ignite_args (world0\<lparr>write_fails := (\<lambda>k. k = 2)\<rparr>))
     = Some (1, 0, [(0, Open 4), (0, Open 4), (0, Close 4)])"
  by (simp add: run_simps)

text \<open>
  Claim C4, amended. On live hardware with no cancellation, when the k-th hardware write
  of an invocation (counted from 0) is the first to fail, the process ends with status
  1; the relay operations performed are exactly the first k + 1 of the sequence of the
  command (the fail-safe open, then the pattern), the failed one last, and no further
  write is attempted: there is no trailing open. This holds for every relay command
  (pulse, hold, maintained call, \<^verbatim>\<open>off\<close>, \<^verbatim>\<open>low\<close>) and for every write of the probe
  sweep. The trailing open of an indefinite hold comes only after a cancellation; when
  that open fails the process ends with status 1 as well. Without a failure the
  operations performed are the whole sequence and the status is 0.
\<close>

theorem write_failure_aborts:
  "(relay_pin a = Some p \<and> \<not> args_dry_run a \<and> gpiozero w \<and> \<not> device_fails w p
      \<and> sigint w = None
      \<and> k < length (command_ops a p)
      \<and> (holds_indefinitely a \<longrightarrow> Suc k < length (command_ops a p))
      \<and> write_fails w (writes w + k) \<and> (\<forall>j<k. \<not> write_fails w (writes w + j))
     \<longrightarrow> (\<exists>w'. run a w = Some (1, w')
           \<and> ops w' = ops w @ take (Suc k) (command_ops a p)
           \<and> writes w' = writes w + Suc k))
   \<and> (relay_pin a = Some p \<and> \<not> args_dry_run a \<and> gpiozero w \<and> \<not> device_fails w p
      \<and> holds_indefinitely a
      \<and> sigint w = Some t \<and> clock w + guard_delay a w + timed_span a \<le> t
      \<and> Suc k = length (command_ops a p)
      \<and> write_fails w (writes w + k) \<and> (\<forall>j<k. \<not> write_fails w (writes w + j))
     \<longrightarrow> (\<exists>w'. run a w = Some (1, w')
           \<and> ops w' = ops w @ command_ops a p
           \<and> writes w' = writes w + Suc k))
   \<and> (cmd a = Probe \<and> probe_pins a = Inr ps
      \<and> \<not> args_dry_run a \<and> gpiozero w \<and> (\<forall>q. \<not> device_fails w q)
      \<and> sigint w = None
      \<and> k < 3 * length ps
      \<and> write_fails w (writes w + k) \<and> (\<forall>j<k. \<not> write_fails w (writes w + j))
     \<longrightarrow> (\<exists>w'. run a w = Some (1, w')
           \<and> ops w' = ops w @ take (Suc k) (sweep_ops ps)
           \<and> writes w' = writes w + Suc k))
   \<and> (relay_pin a = Some p \<and> hardware_ok a w p \<and> \<not> holds_indefinitely a
      \<and> sigint w = None
     \<longrightarrow> (\<exists>w'. run a w = Some (0, w') \<and> ops w' = ops w @ command_ops a p))
   \<and> (cmd a = Probe \<and> probe_pins a = Inr ps \<and> ps \<noteq> []
      \<and> (args_dry_run a
          \<or> (gpiozero w \<and> (\<forall>q. \<not> device_fails w q) \<and> (\<forall>j. \<not> write_fails w j)))
      \<and> sigint w = None
     \<longrightarrow> (\<exists>w'. run a w = Some (0, w') \<and> ops w' = ops w @ sweep_ops ps))"
proof (intro conjI impI)
  assume "relay_pin a = Some p \<and> \<not> args_dry_run a \<and> gpiozero w \<and> \<not> device_fails w p
      \<and> sigint w = None
      \<and> k < length (command_ops a p)
      \<and> (holds_indefinitely a \<longrightarrow> Suc k < length (command_ops a p))
      \<and> write_fails w (writes w + k) \<and> (\<forall>j<k. \<not> write_fails w (writes w + j))"
  then obtain w' where "main a w = Some (Inl DeviceError, w')"
    "ops w' = ops w @ take (Suc k) (command_ops a p)" "writes w' = writes w + Suc k"
    using invocation_write_failure [of a p w k] by blast
  then show "\<exists>w'. run a w = Some (1, w')
           \<and> ops w' = ops w @ take (Suc k) (command_ops a p)
           \<and> writes w' = writes w + Suc k"
    using run_device_error by blast
next
  assume "relay_pin a = Some p \<and> \<not> args_dry_run a \<and> gpiozero w \<and> \<not> device_fails w p
      \<and> holds_indefinitely a
      \<and> sigint w = Some t \<and> clock w + guard_delay a w + timed_span a \<le> t
      \<and> Suc k = length (command_ops a p)
      \<and> write_fails w (writes w + k) \<and> (\<forall>j<k. \<not> write_fails w (writes w + j))"
  then obtain w' where "main a w = Some (Inl DeviceError, w')"
    "ops w' = ops w @ command_ops a p" "writes w' = writes w + Suc k"
    using invocation_release_write_failure [of a p w t k] by blast
  then show "\<exists>w'. run a w = Some (1, w')
           \<and> ops w' = ops w @ command_ops a p
           \<and> writes w' = writes w + Suc k"
    using run_device_error by blast
next
  assume "cmd a = Probe \<and> probe_pins a = Inr ps
      \<and> \<not> args_dry_run a \<and> gpiozero w \<and> (\<forall>q. \<not> device_fails w q)
      \<and> sigint w = None
      \<and> k < 3 * length ps
      \<and> write_fails w (writes w + k) \<and> (\<forall>j<k. \<not> write_fails w (writes w + j))"
  then obtain w' where "main a w = Some (Inl DeviceError, w')"
    "ops w' = ops w @ take (Suc k) (sweep_ops ps)" "writes w' = writes w + Suc k"
    using probe_invocation_write_failure [of a ps w k] by blast
  then show "\<exists>w'. run a w = Some (1, w')
           \<and> ops w' = ops w @ take (Suc k) (sweep_ops ps)
           \<and> writes w' = writes w + Suc k"
    using run_device_error by blast
next
  assume "relay_pin a = Some p \<and> hardware_ok a w p \<and> \<not> holds_indefinitely a
      \<and> sigint w = None"
  then show "\<exists>w'. run a w = Some (0, w') \<and> ops w' = ops w @ command_ops a p"
    using invocation_ops [of a p w] by blast
next
  assume "cmd a = Probe \<and> probe_pins a = Inr ps \<and> ps \<noteq> []
      \<and> (args_dry_run a
          \<or> (gpiozero w \<and> (\<forall>q. \<not> device_fails w q) \<and> (\<forall>j. \<not> write_fails w j)))
      \<and> sigint w = None"
  then show "\<exists>w'. run a w = Some (0, w') \<and> ops w' = ops w @ sweep_ops ps"
    using probe_invocation_ops [of a ps w] by blast
qed

text \<open>
  Witness for the amended C4: \<^verbatim>\<open>ignite\<close> whose close fails, a maintained call whose
  second close fails, \<^verbatim>\<open>on\<close> without a hold duration cancelled at 8 s whose trailing
  open fails, a probe sweep whose fifth write fails, and \<^verbatim>\<open>ignite\<close> and the sweep
  without a failure.
\<close>

theorem write_failure_aborts_witness:
  "(\<exists>w'. run ignite_args (world0\<lparr>write_fails := (\<lambda>k. k = 2)\<rparr>) = Some (1, w')
      \<and> ops w' = [Open 4, Open 4, Close 4] \<and> writes w' = 3)
   \<and> (\<exists>w'. run (ignite_args\<lparr>maintained := True, hold_seconds := Some 10\<rparr>)
              (world0\<lparr>write_fails := (\<lambda>k. k = 4)\<rparr>) = Some (1, w')
      \<and> ops w' = [Open 4, Open 4, Close 4, Open 4, Close 4] \<and> writes w' = 5)
   \<and> (\<exists>w'. run (ignite_args\<lparr>cmd := On\<rparr>)
              (world0\<lparr>sigint := Some 8, write_fails := (\<lambda>k. k = 3)\<rparr>) = Some (1, w')
      \<and> ops w' = [Open 4, Open 4, Close 4, Open 4] \<and> writes w' = 4)
   \<and> (\<exists>w'. run (ignite_args\<lparr>cmd := Probe\<rparr>) (world0\<lparr>write_fails := (\<lambda>k. k = 4)\<rparr>)
              = Some (1, w')
      \<and> ops w' = [Open 4, Close 4, Open 4, Open 22, Close 22] \<and> writes w' = 5)
   \<and> (\<exists>w'. run ignite_args world0 = Some (0, w')
      \<and> ops w' = [Open 4, Open 4, Close 4, Open 4])
   \<and> (\<exists>w'. run (ignite_args\<lparr>cmd := Probe\<rparr>) world0 = Some (0, w')
      \<and> ops w' = [Open 4, Close 4, Open 4, Open 22, Close 22, Open 22,
                   Open 6, Close 6, Open 6, Open 26, Close 26, Open 26])"
proof -
  let ?mt = "ignite_args\<lparr>maintained := True, hold_seconds := Some 10\<rparr>"
  let ?on = "ignite_args\<lparr>cmd := On\<rparr>"
  let ?pr = "ignite_args\<lparr>cmd := Probe\<rparr>"
  let ?w2 = "world0\<lparr>write_fails := (\<lambda>k. k = 2)\<rparr>"
  let ?w4 = "world0\<lparr>write_fails := (\<lambda>k. k = 4)\<rparr>"
  let ?w8 = "world0\<lparr>sigint := Some 8, write_fails := (\<lambda>k. k = 3)\<rparr>"
  have rp: "relay_pin ignite_args = Some 4" "relay_pin ?mt = Some 4" "relay_pin ?on = Some 4"
    by (simp_all add: relay_pin_def ignite_args_def select_pin_def truthy_def resolver_defs)
  have pp: "cmd ?pr = Probe" "probe_pins ?pr = Inr [4, 22, 6, 26]" "[4, 22, 6, 26::int] \<noteq> []"
    using default_pins_parse by (simp_all add: probe_pins_def ignite_args_def)
  have co: "command_ops ignite_args 4 = [Open 4, Open 4, Close 4, Open 4]"
    "command_ops ?mt 4 = [Open 4, Open 4, Close 4, Open 4, Close 4, Open 4]"
    "command_ops ?on 4 = [Open 4, Open 4, Close 4, Open 4]"
    "sweep_ops [4, 22, 6, 26] = [Open 4, Close 4, Open 4, Open 22, Close 22, Open 22,
                   Open 6, Close 6, Open 6, Open 26, Close 26, Open 26]"
    by (simp_all add: command_ops_def sweep_ops_def ignite_args_def)
  have hi: "\<not> holds_indefinitely ignite_args" "\<not> holds_indefinitely ?mt" "holds_indefinitely ?on"
    by (simp_all add: holds_indefinitely_def ignite_args_def)
  have live: "\<not> args_dry_run ignite_args" "\<not> args_dry_run ?mt" "\<not> args_dry_run ?on"
    "\<not> args_dry_run ?pr"
    by (simp_all add: ignite_args_def)
  have h2: "gpiozero ?w2" "\<not> device_fails ?w2 4" "sigint ?w2 = None"
    "write_fails ?w2 (writes ?w2 + 2)" "\<forall>j<2. \<not> write_fails ?w2 (writes ?w2 + j)"
    "ops ?w2 = []" "writes ?w2 = 0"
    by (simp_all add: world0_def ops_def)
  have h4: "gpiozero ?w4" "\<not> device_fails ?w4 4" "\<forall>q. \<not> device_fails ?w4 q" "sigint ?w4 = None"
    "write_fails ?w4 (writes ?w4 + 4)" "\<forall>j<4. \<not> write_fails ?w4 (writes ?w4 + j)"
    "ops ?w4 = []" "writes ?w4 = 0"
    by (simp_all add: world0_def ops_def)
  have h8: "gpiozero ?w8" "\<not> device_fails ?w8 4" "sigint ?w8 = Some 8"
    "clock ?w8 + guard_delay ?on ?w8 + timed_span ?on \<le> 8"
    "write_fails ?w8 (writes ?w8 + 3)" "\<forall>j<3. \<not> write_fails ?w8 (writes ?w8 + j)"
    "ops ?w8 = []" "writes ?w8 = 0"
    by (simp_all add: world0_def ops_def guard_delay_def timed_span_def ignite_args_def)
  have h0: "hardware_ok ignite_args world0 4" "sigint world0 = None" "ops world0 = []"
    "gpiozero world0 \<and> (\<forall>q. \<not> device_fails world0 q) \<and> (\<forall>j. \<not> write_fails world0 j)"
    by (simp_all add: hardware_ok_def world0_def ops_def)
  have k: "(2::nat) < length (command_ops ignite_args 4)" "(4::nat) < length (command_ops ?mt 4)"
    "Suc 3 = length (command_ops ?on 4)" "(4::nat) < 3 * length [4, 22, 6, 26::int]"
    by (simp_all add: co)
  have "\<exists>w'. run ignite_args ?w2 = Some (1, w')
      \<and> ops w' = ops ?w2 @ take (Suc 2) (command_ops ignite_args 4)
      \<and> writes w' = writes ?w2 + Suc 2"
    using write_failure_aborts [where a = ignite_args and w = ?w2 and p = 4 and k = 2]
      rp(1) live(1) h2(1-5) hi(1) k(1) by blast
  then have a: "\<exists>w'. run ignite_args ?w2 = Some (1, w')
      \<and> ops w' = [Open 4, Open 4, Close 4] \<and> writes w' = 3"
    by (simp add: co world0_def ops_def)
  have "\<exists>w'. run ?mt ?w4 = Some (1, w')
      \<and> ops w' = ops ?w4 @ take (Suc 4) (command_ops ?mt 4)
      \<and> writes w' = writes ?w4 + Suc 4"
    using write_failure_aborts [where a = ?mt and w = ?w4 and p = 4 and k = 4]
      rp(2) live(2) h4(1,2,4,5,6) hi(2) k(2) by blast
  then have b: "\<exists>w'. run ?mt ?w4 = Some (1, w')
      \<and> ops w' = [Open 4, Open 4, Close 4, Open 4, Close 4] \<and> writes w' = 5"
    by (simp add: co world0_def ops_def)
  have "\<exists>w'. run ?on ?w8 = Some (1, w')
      \<and> ops w' = ops ?w8 @ command_ops ?on 4
      \<and> writes w' = writes ?w8 + Suc 3"
    using write_failure_aborts [where a = ?on and w = ?w8 and p = 4 and k = 3 and t = 8]
      rp(3) live(3) h8(1-6) hi(3) k(3) by blast
  then have c: "\<exists>w'. run ?on ?w8 = Some (1, w')
      \<and> ops w' = [Open 4, Open 4, Close 4, Open 4] \<and> writes w' = 4"
    by (simp add: co world0_def ops_def)
  have "\<exists>w'. run ?pr ?w4 = Some (1, w')
      \<and> ops w' = ops ?w4 @ take (Suc 4) (sweep_ops [4, 22, 6, 26])
      \<and> writes w' = writes ?w4 + Suc 4"
    using write_failure_aborts [where a = ?pr and w = ?w4 and ps = "[4, 22, 6, 26]" and k = 4]
      pp(1,2) live(4) h4(1,3,4,5,6) k(4) by blast
  then have d: "\<exists>w'. run ?pr ?w4 = Some (1, w')
      \<and> ops w' = [Open 4, Close 4, Open 4, Open 22, Close 22] \<and> writes w' = 5"
    by (simp add: co world0_def ops_def)
  have "\<exists>w'. run ignite_args world0 = Some (0, w')
      \<and> ops w' = ops world0 @ command_ops ignite_args 4"
    using write_failure_aborts [where a = ignite_args and w = world0 and p = 4]
      rp(1) h0(1,2) hi(1) by blast
  then have e: "\<exists>w'. run ignite_args world0 = Some (0, w')
      \<and> ops w' = [Open 4, Open 4, Close 4, Open 4]"
    by (simp add: co world0_def ops_def)
  have "\<exists>w'. run ?pr world0 = Some (0, w') \<and> ops w' = ops world0 @ sweep_ops [4, 22, 6, 26]"
    using write_failure_aborts [where a = ?pr and w = world0 and ps = "[4, 22, 6, 26]"]
      pp h0(2,4) by blast
  then have f: "\<exists>w'. run ?pr world0 = Some (0, w')
      \<and> ops w' = [Open 4, Close 4, Open 4, Open 22, Close 22, Open 22,
                   Open 6, Close 6, Open 6, Open 26, Close 26, Open 26]"
    by (simp add: co world0_def ops_def)
  from a b c d e f show ?thesis by blast
qed

subsection \<open>Cancellation of an invocation\<close>

text \<open>One channel of the sweep, with the cancellation after or during its cycle.\<close>

lemma max0_pos: "0 < (x::real) \<Longrightarrow> max 0 x = x"
  by simp

lemma max0_nonpos: "\<not> 0 < (x::real) \<Longrightarrow> max 0 x = 0"
  by simp

lemma probe_pin_close_for:
  "probe_pin al pm os None po d p = probe_pin al pm os (Some (real_of_int pm / 1000)) po d p"
  by (simp add: probe_pin_def)

lemmas probe_simps = probe_pin_def Relay_init_ok steps.simps and_then_def ret_def print_def
  sleep_with_sigint_eq Let_def max0_pos max0_nonpos max_absorb2

lemma probe_pin_late_some:
  assumes hw: "d \<or> (gpiozero w \<and> \<not> device_fails w p \<and> (\<forall>k. \<not> write_fails w k))"
    and sig: "sigint w = Some t" "clock w + (max 0 os + max 0 c + max 0 po) \<le> t"
  shows "\<exists>w'. probe_pin al pm os (Some c) po d p w = Some (Inr (), w')
      \<and> clock w' = clock w + (max 0 os + max 0 c + max 0 po)
      \<and> sigint w' = sigint w \<and> gpiozero w' = gpiozero w
      \<and> device_fails w' = device_fails w \<and> write_fails w' = write_fails w"
proof (cases d)
  case True
  with sig show ?thesis
    by (cases "0 < os"; cases "0 < c"; cases "0 < po")
       (simp_all add: probe_simps relay_open_dry relay_close_dry)
next
  case False
  with hw have ok: "\<And>k. write_fails w k = False" and g: "gpiozero w" "\<not> device_fails w p"
    by simp_all
  from False sig g show ?thesis
    by (cases "0 < os"; cases "0 < c"; cases "0 < po")
       (simp_all add: probe_simps relay_open_live relay_close_live ok)
qed

lemma probe_pin_cancelled_some:
  assumes hw: "d \<or> (gpiozero w \<and> \<not> device_fails w p \<and> (\<forall>k. \<not> write_fails w k))"
    and sig: "sigint w = Some t" "clock w \<le> t"
      "t < clock w + (max 0 os + max 0 c + max 0 po)"
  shows "\<exists>w'. probe_pin al pm os (Some c) po d p w = Some (Inl KeyboardInterrupt, w')
      \<and> clock w' = t"
proof (cases d)
  case True
  with sig show ?thesis
    by (cases "0 < os"; cases "0 < c"; cases "0 < po")
       (auto simp add: probe_simps relay_open_dry relay_close_dry)
next
  case False
  with hw have ok: "\<And>k. write_fails w k = False" and g: "gpiozero w" "\<not> device_fails w p"
    by simp_all
  from False sig g show ?thesis
    by (cases "0 < os"; cases "0 < c"; cases "0 < po")
       (auto simp add: probe_simps relay_open_live relay_close_live ok)
qed

lemma probe_pin_late:
  assumes hw: "d \<or> (gpiozero w \<and> \<not> device_fails w p \<and> (\<forall>k. \<not> write_fails w k))"
    and sig: "sigint w = Some t"
      "clock w + (max 0 os + max 0 (case cs of Some c \<Rightarrow> c | None \<Rightarrow> real_of_int pm / 1000)
         + max 0 po) \<le> t"
  shows "\<exists>w'. probe_pin al pm os cs po d p w = Some (Inr (), w')
      \<and> clock w' = clock w + (max 0 os
           + max 0 (case cs of Some c \<Rightarrow> c | None \<Rightarrow> real_of_int pm / 1000) + max 0 po)
      \<and> sigint w' = sigint w \<and> gpiozero w' = gpiozero w
      \<and> device_fails w' = device_fails w \<and> write_fails w' = write_fails w"
proof (cases cs)
  case None
  with sig have "clock w + (max 0 os + max 0 (real_of_int pm / 1000) + max 0 po) \<le> t" by simp
  from probe_pin_late_some [OF hw sig(1) this, of al pm] None show ?thesis
    by (simp add: probe_pin_close_for)
next
  case (Some c)
  with sig have "clock w + (max 0 os + max 0 c + max 0 po) \<le> t" by simp
  from probe_pin_late_some [OF hw sig(1) this, of al pm] Some show ?thesis by simp
qed

lemma probe_pin_cancelled:
  assumes hw: "d \<or> (gpiozero w \<and> \<not> device_fails w p \<and> (\<forall>k. \<not> write_fails w k))"
    and sig: "sigint w = Some t" "clock w \<le> t"
      "t < clock w + (max 0 os + max 0 (case cs of Some c \<Rightarrow> c | None \<Rightarrow> real_of_int pm / 1000)
         + max 0 po)"
  shows "\<exists>w'. probe_pin al pm os cs po d p w = Some (Inl KeyboardInterrupt, w') \<and> clock w' = t"
proof (cases cs)
  case None
  with sig have "t < clock w + (max 0 os + max 0 (real_of_int pm / 1000) + max 0 po)" by simp
  from probe_pin_cancelled_some [OF hw sig(1,2) this, of al pm] None show ?thesis
    by (simp add: probe_pin_close_for)
next
  case (Some c)
  with sig have "t < clock w + (max 0 os + max 0 c + max 0 po)" by simp
  from probe_pin_cancelled_some [OF hw sig(1,2) this, of al pm] Some show ?thesis by simp
qed

lemma probe_steps_cancelled:
  assumes hw: "d \<or> (gpiozero w \<and> (\<forall>p. \<not> device_fails w p) \<and> (\<forall>k. \<not> write_fails w k))"
    and sig: "sigint w = Some t" "clock w \<le> t"
      "t < clock w + real (length ps) * (max 0 os
           + max 0 (case cs of Some c \<Rightarrow> c | None \<Rightarrow> real_of_int pm / 1000) + max 0 po)"
  shows "\<exists>w'. steps (map (probe_pin al pm os cs po d) ps) w = Some (Inl KeyboardInterrupt, w')
      \<and> clock w' = t"
  using hw sig
proof (induction ps arbitrary: w)
  case Nil
  then show ?case by simp
next
  case (Cons p ps)
  let ?cy = "max 0 os + max 0 (case cs of Some c \<Rightarrow> c | None \<Rightarrow> real_of_int pm / 1000) + max 0 po"
  from Cons.prems(1)
  have hwp: "d \<or> (gpiozero w \<and> \<not> device_fails w p \<and> (\<forall>k. \<not> write_fails w k))"
    by blast
  show ?case
  proof (cases "t < clock w + ?cy")
    case True
    from probe_pin_cancelled [OF hwp Cons.prems(2,3) True, of al]
    show ?thesis by (auto simp: and_then_def)
  next
    case False
    then have late: "clock w + ?cy \<le> t" by simp
    from probe_pin_late [OF hwp Cons.prems(2) late, of al]
    obtain w1 where w1: "probe_pin al pm os cs po d p w = Some (Inr (), w1)"
      "clock w1 = clock w + ?cy" "sigint w1 = sigint w" "gpiozero w1 = gpiozero w"
      "device_fails w1 = device_fails w" "write_fails w1 = write_fails w"
      by blast
    have hw1: "d \<or> (gpiozero w1 \<and> (\<forall>p. \<not> device_fails w1 p) \<and> (\<forall>k. \<not> write_fails w1 k))"
      using Cons.prems(1) w1 by simp
    have s1: "sigint w1 = Some t" "clock w1 \<le> t" using Cons.prems(2) late w1 by simp_all
    have s2: "t < clock w1 + real (length ps) * ?cy"
      using Cons.prems(4) w1(2) by (simp add: algebra_simps)
    from Cons.IH [OF hw1 s1 s2]
    obtain w2 where "steps (map (probe_pin al pm os cs po d) ps) w1 = Some (Inl KeyboardInterrupt, w2)"
      "clock w2 = t"
      by blast
    with w1(1) show ?thesis by (simp add: and_then_def)
  qed
qed

lemma probe_invocation_cancelled:
  assumes pr: "cmd a = Probe" "probe_pins a = Inr ps"
    and hw: "args_dry_run a
      \<or> (gpiozero w \<and> (\<forall>p. \<not> device_fails w p) \<and> (\<forall>k. \<not> write_fails w k))"
    and sig: "sigint w = Some t" "clock w \<le> t"
      "t < clock w + real (length ps) * probe_cycle a"
  shows "\<exists>w'. main a w = Some (Inl KeyboardInterrupt, w') \<and> clock w' = t"
proof -
  let ?w0 = "w\<lparr>stdout := stdout w @ [ProbingMsg]\<rparr>"
  from sig have ne: "ps \<noteq> []" by auto
  have hw0: "args_dry_run a
      \<or> (gpiozero ?w0 \<and> (\<forall>p. \<not> device_fails ?w0 p) \<and> (\<forall>k. \<not> write_fails ?w0 k))"
    using hw by simp
  have s0: "sigint ?w0 = Some t" "clock ?w0 \<le> t" using sig by simp_all
  have s1: "t < clock ?w0 + real (length ps) * (max 0 (open_seconds a)
      + max 0 (case close_seconds a of Some c \<Rightarrow> c | None \<Rightarrow> real_of_int (pulse_ms a) / 1000)
      + max 0 (post_open_seconds a))"
    using sig(3) by (simp add: probe_cycle_def)
  from probe_steps_cancelled [OF hw0 s0 s1, of "args_active_low a"]
  obtain w' where "steps (map (probe_pin (args_active_low a) (pulse_ms a) (open_seconds a)
      (close_seconds a) (post_open_seconds a) (args_dry_run a)) ps) ?w0
        = Some (Inl KeyboardInterrupt, w')" "clock w' = t"
    by blast
  then show ?thesis
    unfolding main_probe [OF pr] using ne
    by (simp add: cmd_probe_def print_def and_then_def)
qed

text \<open>The exit status of a cancelled invocation.\<close>

lemma invocation_cancelled_run:
  assumes rp: "relay_pin a = Some p" and hw: "hardware_ok a w p"
    and sig: "sigint w = Some t" "clock w \<le> t"
      "t < clock w + guard_delay a w + timed_span a"
  shows "\<exists>w1. run a w = Some (130, w1) \<and> clock w1 = t \<and> last (stdout w1) = Interrupted"
proof -
  from invocation_cancelled [OF rp hw sig]
  obtain w' where "main a w = Some (Inl KeyboardInterrupt, w')" "clock w' = t" by blast
  with run_interrupted [of a w w'] show ?thesis by simp
qed

lemma probe_cancelled_run:
  assumes pr: "cmd a = Probe" "probe_pins a = Inr ps"
    and hw: "args_dry_run a
      \<or> (gpiozero w \<and> (\<forall>p. \<not> device_fails w p) \<and> (\<forall>k. \<not> write_fails w k))"
    and sig: "sigint w = Some t" "clock w \<le> t"
      "t < clock w + real (length ps) * probe_cycle a"
  shows "\<exists>w1. run a w = Some (130, w1) \<and> clock w1 = t \<and> last (stdout w1) = Interrupted"
proof -
  from probe_invocation_cancelled [OF pr hw sig]
  obtain w' where "main a w = Some (Inl KeyboardInterrupt, w')" "clock w' = t" by blast
  with run_interrupted [of a w w'] show ?thesis by simp
qed

lemma invocation_released_run:
  assumes rp: "relay_pin a = Some p" and hw: "hardware_ok a w p"
    and ind: "holds_indefinitely a"
    and sig: "sigint w = Some t" "clock w + guard_delay a w + timed_span a \<le> t"
  shows "\<exists>w1. run a w = Some (0, w1)
     \<and> trace w1 = trace w @ (clock w, Open p) # pattern_trace a p (clock w + guard_delay a w) t
     \<and> clock w1 = t"
  using invocation_released [OF rp hw ind sig] run_returns by blast

text \<open>
  Claim C2 as stated fails: a cancellation 0.5 s into a wait of 5 s makes the wait raise
  \<^verbatim>\<open>KeyboardInterrupt\<close>, and \<^verbatim>\<open>on --hold-seconds 5\<close> cancelled at that time exits with
  status 130.
\<close>

theorem timed_wait_raises_counterexample:
  "sleep_with_sigint 5 (world0\<lparr>sigint := Some (1/2)\<rparr>)
     = Some (Inl KeyboardInterrupt, world0\<lparr>clock := 1/2\<rparr>)
   \<and> observe (run (ignite_args\<lparr>cmd := On, hold_seconds := Some 5\<rparr>)
                (world0\<lparr>sigint := Some (1/2)\<rparr>))
     = Some (130, 1/2, [(0, Open 4), (0, Open 4), (0, Close 4)])"
  by (simp add: run_simps interrupt_simps del: sleep_with_sigint_returns)

text \<open>
  Claim C2, amended. With no cancellation a wait returns normally when the clock has
  advanced by the duration (by nothing for a duration of zero or less). A cancellation
  that arrives during a timed wait makes the wait raise \<^verbatim>\<open>KeyboardInterrupt\<close> at that
  time. It is not absorbed: an invocation of a relay command cancelled during the wait
  of the boot guard or during a timed wait of its pattern (the pulse, the timed hold,
  the fixed waits and the timed hold of the maintained call), and a probe sweep
  cancelled during one of its waits, print a line and end with status 130 at the time
  of the cancellation. Only the indefinite hold of \<^verbatim>\<open>on\<close>, \<^verbatim>\<open>high\<close> and
  \<^verbatim>\<open>ignite --maintained\<close> absorbs the cancellation: the pattern then opens the relay
  and the process ends with status 0.
\<close>

theorem cancellation_behaviour:
  "(sigint w = None \<longrightarrow>
      sleep_with_sigint d w = Some (Inr (), w\<lparr>clock := clock w + max 0 d\<rparr>))
   \<and> (sigint w = Some t \<and> clock w \<le> t \<and> t < clock w + d \<longrightarrow>
      sleep_with_sigint d w = Some (Inl KeyboardInterrupt, w\<lparr>clock := t, sigint := None\<rparr>))
   \<and> (relay_pin a = Some p \<and> hardware_ok a w p
        \<and> sigint w = Some t \<and> clock w \<le> t
        \<and> t < clock w + guard_delay a w + timed_span a
      \<longrightarrow> (\<exists>w1. run a w = Some (130, w1) \<and> clock w1 = t
            \<and> last (stdout w1) = Interrupted))
   \<and> (cmd a = Probe \<and> probe_pins a = Inr ps
        \<and> (args_dry_run a
            \<or> (gpiozero w \<and> (\<forall>q. \<not> device_fails w q) \<and> (\<forall>k. \<not> write_fails w k)))
        \<and> sigint w = Some t \<and> clock w \<le> t
        \<and> t < clock w + real (length ps) * probe_cycle a
      \<longrightarrow> (\<exists>w1. run a w = Some (130, w1) \<and> clock w1 = t
            \<and> last (stdout w1) = Interrupted))
   \<and> (relay_pin a = Some p \<and> hardware_ok a w p \<and> holds_indefinitely a
        \<and> sigint w = Some t \<and> clock w + guard_delay a w + timed_span a \<le> t
      \<longrightarrow> (\<exists>w1. run a w = Some (0, w1)
            \<and> trace w1 = trace w @ (clock w, Open p)
                # pattern_trace a p (clock w + guard_delay a w) t
            \<and> clock w1 = t))
   \<and> (sigint w = Some t \<and> clock w \<le> t \<and> (dry_run r \<or> (\<forall>k. \<not> write_fails w k)) \<longrightarrow>
      (\<exists>w1. cmd_hold r None w = Some (Inr (), w1)
         \<and> trace w1 = trace w @
             [(clock w, Open (pin (cfg r))), (clock w, Close (pin (cfg r))),
              (t, Open (pin (cfg r)))]
         \<and> clock w1 = t))"
proof (intro conjI impI)
  assume "sigint w = None"
  then show "sleep_with_sigint d w = Some (Inr (), w\<lparr>clock := clock w + max 0 d\<rparr>)"
    by (simp add: sleep_with_sigint_returns)
next
  assume "sigint w = Some t \<and> clock w \<le> t \<and> t < clock w + d"
  then show "sleep_with_sigint d w
      = Some (Inl KeyboardInterrupt, w\<lparr>clock := t, sigint := None\<rparr>)"
    using wait_interrupted [of w t d] by blast
next
  assume "relay_pin a = Some p \<and> hardware_ok a w p
        \<and> sigint w = Some t \<and> clock w \<le> t
        \<and> t < clock w + guard_delay a w + timed_span a"
  then show "\<exists>w1. run a w = Some (130, w1) \<and> clock w1 = t \<and> last (stdout w1) = Interrupted"
    using invocation_cancelled_run [of a p w t] by blast
next
  assume "cmd a = Probe \<and> probe_pins a = Inr ps
        \<and> (args_dry_run a
            \<or> (gpiozero w \<and> (\<forall>q. \<not> device_fails w q) \<and> (\<forall>k. \<not> write_fails w k)))
        \<and> sigint w = Some t \<and> clock w \<le> t
        \<and> t < clock w + real (length ps) * probe_cycle a"
  then show "\<exists>w1. run a w = Some (130, w1) \<and> clock w1 = t \<and> last (stdout w1) = Interrupted"
    using probe_cancelled_run [of a ps w t] by blast
next
  assume "relay_pin a = Some p \<and> hardware_ok a w p \<and> holds_indefinitely a
        \<and> sigint w = Some t \<and> clock w + guard_delay a w + timed_span a \<le> t"
  then show "\<exists>w1. run a w = Some (0, w1)
            \<and> trace w1 = trace w @ (clock w, Open p)
                # pattern_trace a p (clock w + guard_delay a w) t
            \<and> clock w1 = t"
    using invocation_released_run [of a p w t] by blast
next
  assume "sigint w = Some t \<and> clock w \<le> t \<and> (dry_run r \<or> (\<forall>k. \<not> write_fails w k))"
  then show "\<exists>w1. cmd_hold r None w = Some (Inr (), w1)
         \<and> trace w1 = trace w @
             [(clock w, Open (pin (cfg r))), (clock w, Close (pin (cfg r))),
              (t, Open (pin (cfg r)))]
         \<and> clock w1 = t"
    using hold_indefinite [of r w t] by blast
qed

text \<open>
  Witness for the amended C2: a wait of 2 s without and with a cancellation after 1 s; a
  pulse cancelled after 0.1 s, a maintained call with a hold of 10 s cancelled after
  5 s, \<^verbatim>\<open>off\<close> cancelled 3 s into a guard wait of 7 s and a probe sweep cancelled after
  1 s; \<^verbatim>\<open>on\<close> and \<^verbatim>\<open>ignite --maintained\<close> without a hold duration and the indefinite
  hold pattern, cancelled after 8 s.
\<close>

theorem cancellation_behaviour_witness:
  "sleep_with_sigint 2 world0 = Some (Inr (), world0\<lparr>clock := 2\<rparr>)
   \<and> sleep_with_sigint 2 (world0\<lparr>sigint := Some 1\<rparr>)
       = Some (Inl KeyboardInterrupt, world0\<lparr>clock := 1\<rparr>)
   \<and> (\<exists>w1. run ignite_args (world0\<lparr>sigint := Some (1/10)\<rparr>) = Some (130, w1)
         \<and> clock w1 = 1/10 \<and> last (stdout w1) = Interrupted)
   \<and> (\<exists>w1. run (ignite_args\<lparr>maintained := True, hold_seconds := Some 10\<rparr>)
              (world0\<lparr>sigint := Some 5\<rparr>) = Some (130, w1)
         \<and> clock w1 = 5 \<and> last (stdout w1) = Interrupted)
   \<and> (\<exists>w1. run (ignite_args\<lparr>cmd := Off\<rparr>) (world0\<lparr>uptime := Some 5, sigint := Some 3\<rparr>)
              = Some (130, w1)
         \<and> clock w1 = 3 \<and> last (stdout w1) = Interrupted)
   \<and> (\<exists>w1. run (ignite_args\<lparr>cmd := Probe\<rparr>) (world0\<lparr>sigint := Some 1\<rparr>) = Some (130, w1)
         \<and> clock w1 = 1 \<and> last (stdout w1) = Interrupted)
   \<and> (\<exists>w1. run (ignite_args\<lparr>cmd := On\<rparr>) (world0\<lparr>sigint := Some 8\<rparr>) = Some (0, w1)
         \<and> trace w1 = [(0, Open 4), (0, Open 4), (0, Close 4), (8, Open 4)]
         \<and> clock w1 = 8)
   \<and> (\<exists>w1. run (ignite_args\<lparr>maintained := True\<rparr>) (world0\<lparr>sigint := Some 8\<rparr>) = Some (0, w1)
         \<and> trace w1 = [(0, Open 4), (0, Open 4), (1, Close 4), (5/4, Open 4), (3/2, Close 4),
                        (8, Open 4)]
         \<and> clock w1 = 8)
   \<and> (\<exists>w1. cmd_hold low_flame_relay None (world0\<lparr>sigint := Some 8\<rparr>) = Some (Inr (), w1)
         \<and> trace w1 = [(0, Open 4), (0, Close 4), (8, Open 4)] \<and> clock w1 = 8)"
proof -
  let ?wi = "world0\<lparr>sigint := Some (1/10)\<rparr>"
  let ?w1 = "world0\<lparr>sigint := Some 1\<rparr>"
  let ?w3 = "world0\<lparr>uptime := Some 5, sigint := Some 3\<rparr>"
  let ?w5 = "world0\<lparr>sigint := Some 5\<rparr>"
  let ?w8 = "world0\<lparr>sigint := Some 8\<rparr>"
  let ?on = "ignite_args\<lparr>cmd := On\<rparr>"
  let ?off = "ignite_args\<lparr>cmd := Off\<rparr>"
  let ?pr = "ignite_args\<lparr>cmd := Probe\<rparr>"
  let ?mt = "ignite_args\<lparr>maintained := True, hold_seconds := Some 10\<rparr>"
  let ?mi = "ignite_args\<lparr>maintained := True\<rparr>"
  have rp: "relay_pin ignite_args = Some 4" "relay_pin ?mt = Some 4" "relay_pin ?off = Some 4"
    "relay_pin ?on = Some 4" "relay_pin ?mi = Some 4"
    by (simp_all add: relay_pin_def ignite_args_def select_pin_def truthy_def resolver_defs)
  have pp: "cmd ?pr = Probe" "probe_pins ?pr = Inr [4, 22, 6, 26]"
    using default_pins_parse by (simp_all add: probe_pins_def ignite_args_def)
  have ok: "hardware_ok ignite_args ?wi 4" "hardware_ok ?mt ?w5 4" "hardware_ok ?off ?w3 4"
    "hardware_ok ?on ?w8 4" "hardware_ok ?mi ?w8 4"
    "gpiozero ?w1 \<and> (\<forall>q. \<not> device_fails ?w1 q) \<and> (\<forall>k. \<not> write_fails ?w1 k)"
    by (simp_all add: hardware_ok_def world0_def ignite_args_def)
  have hi: "holds_indefinitely ?on" "holds_indefinitely ?mi"
    by (simp_all add: holds_indefinitely_def ignite_args_def)
  have si: "sigint ?wi = Some (1/10)" "clock ?wi \<le> 1/10"
    "1/10 < clock ?wi + guard_delay ignite_args ?wi + timed_span ignite_args"
    by (simp_all add: world0_def ignite_args_def guard_delay_def timed_span_def)
  have s5: "sigint ?w5 = Some 5" "clock ?w5 \<le> 5"
    "5 < clock ?w5 + guard_delay ?mt ?w5 + timed_span ?mt"
    by (simp_all add: world0_def ignite_args_def guard_delay_def timed_span_def)
  have s3: "sigint ?w3 = Some 3" "clock ?w3 \<le> 3"
    "3 < clock ?w3 + guard_delay ?off ?w3 + timed_span ?off"
    by (simp_all add: world0_def ignite_args_def guard_delay_def timed_span_def)
  have s1: "sigint ?w1 = Some 1" "clock ?w1 \<le> 1"
    "1 < clock ?w1 + real (length [4, 22, 6, 26::int]) * probe_cycle ?pr"
    by (simp_all add: world0_def ignite_args_def probe_cycle_def)
  have s8: "sigint ?w8 = Some 8" "clock ?w8 + guard_delay ?on ?w8 + timed_span ?on \<le> 8"
    "clock ?w8 + guard_delay ?mi ?w8 + timed_span ?mi \<le> 8"
    "clock ?w8 \<le> 8" "\<forall>k. \<not> write_fails ?w8 k"
    by (simp_all add: world0_def ignite_args_def guard_delay_def timed_span_def)
  have a: "sleep_with_sigint 2 world0 = Some (Inr (), world0\<lparr>clock := 2\<rparr>)"
    using cancellation_behaviour [where w = world0 and d = 2]
    by (simp add: world0_def)
  have b: "sleep_with_sigint 2 ?w1 = Some (Inl KeyboardInterrupt, world0\<lparr>clock := 1\<rparr>)"
    using cancellation_behaviour [where w = ?w1 and d = 2 and t = 1]
    by (simp add: world0_def)
  have c: "\<exists>w1. run ignite_args ?wi = Some (130, w1) \<and> clock w1 = 1/10
      \<and> last (stdout w1) = Interrupted"
    using cancellation_behaviour [where a = ignite_args and w = ?wi and p = 4 and t = "1/10"]
      rp(1) ok(1) si by blast
  have d: "\<exists>w1. run ?mt ?w5 = Some (130, w1) \<and> clock w1 = 5 \<and> last (stdout w1) = Interrupted"
    using cancellation_behaviour [where a = ?mt and w = ?w5 and p = 4 and t = 5]
      rp(2) ok(2) s5 by blast
  have e: "\<exists>w1. run ?off ?w3 = Some (130, w1) \<and> clock w1 = 3 \<and> last (stdout w1) = Interrupted"
    using cancellation_behaviour [where a = ?off and w = ?w3 and p = 4 and t = 3]
      rp(3) ok(3) s3 by blast
  have f: "\<exists>w1. run ?pr ?w1 = Some (130, w1) \<and> clock w1 = 1 \<and> last (stdout w1) = Interrupted"
    using cancellation_behaviour [where a = ?pr and w = ?w1 and ps = "[4, 22, 6, 26]" and t = 1]
      pp ok(6) s1 by blast
  have "\<exists>w1. run ?on ?w8 = Some (0, w1)
      \<and> trace w1 = trace ?w8 @ (clock ?w8, Open 4)
          # pattern_trace ?on 4 (clock ?w8 + guard_delay ?on ?w8) 8
      \<and> clock w1 = 8"
    using cancellation_behaviour [where a = ?on and w = ?w8 and p = 4 and t = 8]
      rp(4) ok(4) hi(1) s8(1,2) by blast
  then have g: "\<exists>w1. run ?on ?w8 = Some (0, w1)
      \<and> trace w1 = [(0, Open 4), (0, Open 4), (0, Close 4), (8, Open 4)] \<and> clock w1 = 8"
    by (simp add: world0_def ignite_args_def pattern_trace_def guard_delay_def)
  have "\<exists>w1. run ?mi ?w8 = Some (0, w1)
      \<and> trace w1 = trace ?w8 @ (clock ?w8, Open 4)
          # pattern_trace ?mi 4 (clock ?w8 + guard_delay ?mi ?w8) 8
      \<and> clock w1 = 8"
    using cancellation_behaviour [where a = ?mi and w = ?w8 and p = 4 and t = 8]
      rp(5) ok(5) hi(2) s8(1,3) by blast
  then have h: "\<exists>w1. run ?mi ?w8 = Some (0, w1)
      \<and> trace w1 = [(0, Open 4), (0, Open 4), (1, Close 4), (5/4, Open 4), (3/2, Close 4),
                     (8, Open 4)]
      \<and> clock w1 = 8"
    by (simp add: world0_def ignite_args_def pattern_trace_def guard_delay_def)
  have "\<exists>w1. cmd_hold low_flame_relay None ?w8 = Some (Inr (), w1)
         \<and> trace w1 = trace ?w8 @
             [(clock ?w8, Open (pin (cfg low_flame_relay))),
              (clock ?w8, Close (pin (cfg low_flame_relay))),
              (8, Open (pin (cfg low_flame_relay)))]
         \<and> clock w1 = 8"
    using cancellation_behaviour [where w = ?w8 and t = 8 and r = low_flame_relay] s8(1,4,5)
    by blast
  then have i: "\<exists>w1. cmd_hold low_flame_relay None ?w8 = Some (Inr (), w1)
         \<and> trace w1 = [(0, Open 4), (0, Close 4), (8, Open 4)] \<and> clock w1 = 8"
    by (simp add: world0_def low_flame_relay_def)
  from a b c d e f g h i show ?thesis by blast
qed

end
